theory Spec2Isabelle
  imports Main
begin

section \<open>Data model (main.go, types Page and Child)\<close>

text \<open>
  Only the fields the three passes read or write are kept: timestamps, e-mail addresses,
  emojis and the text alignment are loaded and never looked at again.

  A \<open>Child\<close> holds its owning page by value (field \<open>Page\<close>). Of that copy the program
  only ever reads \<open>Title\<close>; the copy's slice of children shares the page's own array and is
  never reached through the back-reference. The copy is therefore the record \<open>PageHead\<close>
  (title and daily flag), and a \<open>Page\<close> is a \<open>PageHead\<close> extended by its children
  (\<open>PageRawChildren\<close>, since \<open>RawChildren\<close> names the children of a block).
  Strings are Go strings: sequences of bytes.
\<close>

record PageHead =
  Title :: string
  IsDaily :: bool

datatype Child =
  Child (UID: string) (String: string) (RawChildren: "Child list") (Heading: int) (Page: PageHead)

record Page = PageHead +
  PageRawChildren :: "Child list"

definition set_Page :: "Child \<Rightarrow> PageHead \<Rightarrow> Child" where
  "set_Page c pg = Child (UID c) (String c) (RawChildren c) (Heading c) pg"

text \<open>
  Errors: \<open>ParseError value message\<close> is the \<open>*time.ParseError\<close> of \<open>time.Parse\<close>,
  \<open>Errorf text err\<close> is \<open>fmt.Errorf("<text>: %w", err)\<close> (the quotes that \<open>%q\<close> puts
  around a date are left out), \<open>PathError\<close> is an error of the file system.
\<close>

datatype error =
    ParseError string string
  | Errorf string error
  | PathError string

section \<open>Regular expressions (package regexp, as far as the five patterns use it)\<close>

text \<open>
  A pattern is a function from the text at the current position to the list of ways it
  can match there, in the order Go's backtracking semantics prefers them (leftmost
  alternative first, greedy repetition longest first). Each way is the list of texts of
  the capture groups closed so far, the text matched, and the text left.
\<close>

type_synonym rmatch = "string list \<times> string \<times> string"
type_synonym rx = "string \<Rightarrow> rmatch list"

definition re_lit :: "string \<Rightarrow> rx" where
  "re_lit w s = (if take (length w) s = w then [([], w, drop (length w) s)] else [])"

definition re_cls :: "(char \<Rightarrow> bool) \<Rightarrow> rx" where
  "re_cls P s = (case s of [] \<Rightarrow> [] | c # cs \<Rightarrow> if P c then [([], [c], cs)] else [])"

definition re_seq :: "rx \<Rightarrow> rx \<Rightarrow> rx" where
  "re_seq a b s =
     concat (map (\<lambda>(c1, m1, r1). map (\<lambda>(c2, m2, r2). (c1 @ c2, m1 @ m2, r2)) (b r1)) (a s))"

definition re_eps :: rx where
  "re_eps s = [([], [], s)]"

definition re_seqs :: "rx list \<Rightarrow> rx" where
  "re_seqs rs = foldr re_seq rs re_eps"

definition re_alts :: "rx list \<Rightarrow> rx" where
  "re_alts rs s = concat (map (\<lambda>r. r s) rs)"

definition re_grp :: "rx \<Rightarrow> rx" where
  "re_grp a s = map (\<lambda>(c, m, r). (c @ [m], m, r)) (a s)"

fun re_rep :: "nat \<Rightarrow> rx \<Rightarrow> rx" where
  "re_rep 0 a = re_eps"
| "re_rep (Suc n) a = re_seq a (re_rep n a)"

text \<open>\<open>[...]+\<close>: one or more characters of a class, the longest run first.\<close>

fun re_plus :: "(char \<Rightarrow> bool) \<Rightarrow> rx" where
  "re_plus P [] = []"
| "re_plus P (c # cs) =
     (if P c then map (\<lambda>(g, m, r). (g, c # m, r)) (re_plus P cs) @ [([], [c], cs)] else [])"

text \<open>\<open>$\<close> without the multi-line flag: the end of the text only.\<close>

definition re_eol :: rx where
  "re_eol s = (if s = [] then [([], [], [])] else [])"

text \<open>
  \<open>.\<close> matches one code point other than a line feed. Go decodes the text as UTF-8
  (\<open>utf8.DecodeRuneInString\<close>); a byte that does not start a well-formed sequence counts
  as one code point of width one.
\<close>

definition byte_in :: "nat \<Rightarrow> nat \<Rightarrow> char \<Rightarrow> bool" where
  "byte_in lo hi c = (lo \<le> (of_char c :: nat) \<and> (of_char c :: nat) \<le> hi)"

fun rune_width :: "string \<Rightarrow> nat" where
  "rune_width [] = 0"
| "rune_width (c0 # s) =
     (if byte_in 0xC2 0xDF c0 then
        (case s of c1 # _ \<Rightarrow> if byte_in 0x80 0xBF c1 then 2 else 1 | _ \<Rightarrow> 1)
      else if byte_in 0xE0 0xEF c0 then
        (case s of
           c1 # c2 # _ \<Rightarrow>
             if byte_in (if c0 = CHR 0xE0 then 0xA0 else 0x80)
                        (if c0 = CHR 0xED then 0x9F else 0xBF) c1
                \<and> byte_in 0x80 0xBF c2
             then 3 else 1
         | _ \<Rightarrow> 1)
      else if byte_in 0xF0 0xF4 c0 then
        (case s of
           c1 # c2 # c3 # _ \<Rightarrow>
             if byte_in (if c0 = CHR 0xF0 then 0x90 else 0x80)
                        (if c0 = CHR 0xF4 then 0x8F else 0xBF) c1
                \<and> byte_in 0x80 0xBF c2 \<and> byte_in 0x80 0xBF c3
             then 4 else 1
         | _ \<Rightarrow> 1)
      else 1)"

definition re_dot :: rx where
  "re_dot s =
     (case s of
        [] \<Rightarrow> []
      | c # _ \<Rightarrow>
          if c = CHR 0x0A then []
          else [([], take (rune_width s) s, drop (rune_width s) s)])"

text \<open>
  \<open>FindStringSubmatchIndex\<close>: the leftmost position at which the pattern matches, and
  the preferred match there. The result is given as the text before the match, the
  capture groups, the matched text and the text after it, which is how the callers use
  the indices (\<open>update[:match[0]]\<close>, \<open>update[match[4]:match[5]]\<close>, \<open>update[match[1]:]\<close>).
  Every pattern searched this way starts with an ASCII character, which in UTF-8 only
  occurs at the start of a code point, so trying every byte offset finds the same match
  as Go's code point by code point scan.
\<close>

fun find_from :: "rx \<Rightarrow> string \<Rightarrow> string \<Rightarrow> (string \<times> string list \<times> string \<times> string) option" where
  "find_from re pre s =
     (case re s of
        (caps, m, r) # _ \<Rightarrow> Some (pre, caps, m, r)
      | [] \<Rightarrow> (case s of [] \<Rightarrow> None | c # cs \<Rightarrow> find_from re (pre @ [c]) cs))"

definition FindStringSubmatchIndex :: "rx \<Rightarrow> string \<Rightarrow> (string \<times> string list \<times> string \<times> string) option" where
  "FindStringSubmatchIndex re s = find_from re [] s"

text \<open>
  \<open>FindAllStringSubmatch(in, -1)\<close> for a pattern anchored by \<open>^\<close>: the pattern can
  match at offset 0 only, so the result has at most one row: the whole match followed by
  the capture groups.
\<close>

definition FindAllStringSubmatch_anchored :: "rx \<Rightarrow> string \<Rightarrow> string list list" where
  "FindAllStringSubmatch_anchored re s =
     (case re s of [] \<Rightarrow> [] | (caps, m, r) # _ \<Rightarrow> [m # caps])"

subsection \<open>The five patterns\<close>

definition is_digit :: "char \<Rightarrow> bool" where
  "is_digit c = (c \<in> set ''0123456789'')"

definition is_lower :: "char \<Rightarrow> bool" where
  "is_lower c = (c \<in> set ''abcdefghijklmnopqrstuvwxyz'')"

definition longMonthNames :: "string list" where
  "longMonthNames =
     [''January'', ''February'', ''March'', ''April'', ''May'', ''June'', ''July'',
      ''August'', ''September'', ''October'', ''November'', ''December'']"

text \<open>\<open>^(January|...|December) ([0-9]+)[a-z]{2}, ([0-9]{4})$\<close>\<close>

definition reDaily :: rx where
  "reDaily =
     re_seqs [re_grp (re_alts (map re_lit longMonthNames)), re_lit '' '',
              re_grp (re_plus is_digit), re_rep 2 (re_cls is_lower), re_lit '', '',
              re_grp (re_rep 4 (re_cls is_digit)), re_eol]"

text \<open>
  \<open>(\[\[)([January|...|December [0-9]+[a-z]{2}, [0-9]{4})(\]\])\<close>: the second group
  opens with a bracket, not a parenthesis, so the month names are the members of a
  character class that runs up to the \<open>]\<close> of \<open>[0-9]\<close>: the letters of the month names,
  \<open>|\<close>, the space, \<open>[\<close> and the digits.
\<close>

definition dayLinkClass :: "char \<Rightarrow> bool" where
  "dayLinkClass c =
     (c \<in> set ''January|February|March|April|May|June|July|August|September|October|November|December [''
      \<or> is_digit c)"

definition reDayLink :: rx where
  "reDayLink =
     re_seqs [re_grp (re_lit ''[[''),
              re_grp (re_seqs [re_plus dayLinkClass, re_rep 2 (re_cls is_lower), re_lit '', '',
                               re_rep 4 (re_cls is_digit)]),
              re_grp (re_lit '']]'')]"

text \<open>\<open>({{embed: \(\()(.{9})(\)\)}})\<close>, \<open>({{mentions: \(\()(.{9})(\)\)}})\<close>, \<open>(\(\()(.{9})(\)\))\<close>\<close>

definition reBlockEmbed :: rx where
  "reBlockEmbed =
     re_seqs [re_grp (re_lit ''{{embed: ((''), re_grp (re_rep 9 re_dot), re_grp (re_lit ''))}}'')]"

definition reBlockMentions :: rx where
  "reBlockMentions =
     re_seqs [re_grp (re_lit ''{{mentions: ((''), re_grp (re_rep 9 re_dot), re_grp (re_lit ''))}}'')]"

definition reBlockRef :: rx where
  "reBlockRef =
     re_seqs [re_grp (re_lit ''((''), re_grp (re_rep 9 re_dot), re_grp (re_lit ''))'')]"

section \<open>Dates (package time, for the layouts roamDailyLayout and obsDailyLayout)\<close>

text \<open>
  \<open>time.Parse("January _2 2006", value)\<close>, step by step as the library does it: the
  month name, blanks, a day of one or two digits, blanks, a year of four digits, nothing
  left over, and then the check of the day against the month's length. The library
  compares month names ignoring case; every value that reaches it here starts with a
  month name as \<open>reDaily\<close> spells it.
\<close>

fun lookup_from :: "nat \<Rightarrow> string list \<Rightarrow> string \<Rightarrow> (nat \<times> string) option" where
  "lookup_from i [] val = None"
| "lookup_from i (v # tab) val =
     (if length v \<le> length val \<and> take (length v) val = v then Some (i, drop (length v) val)
      else lookup_from (Suc i) tab val)"

definition cutspace :: "string \<Rightarrow> string" where
  "cutspace s = dropWhile (\<lambda>c. c = CHR '' '') s"

definition skip_space :: "string \<Rightarrow> string option" where
  "skip_space val =
     (case val of
        [] \<Rightarrow> Some []
      | c # _ \<Rightarrow> if c \<noteq> CHR '' '' then None else Some (cutspace val))"

definition digit_val :: "char \<Rightarrow> nat" where
  "digit_val c = (of_char c :: nat) - 48"

definition getnum :: "string \<Rightarrow> (nat \<times> string) option" where
  "getnum s =
     (case s of
        [] \<Rightarrow> None
      | c0 # s1 \<Rightarrow>
          if \<not> is_digit c0 then None
          else (case s1 of
                  [] \<Rightarrow> Some (digit_val c0, s1)
                | c1 # s2 \<Rightarrow>
                    if \<not> is_digit c1 then Some (digit_val c0, s1)
                    else Some (digit_val c0 * 10 + digit_val c1, s2)))"

definition atoi4 :: "string \<Rightarrow> nat option" where
  "atoi4 p =
     (if list_all is_digit p
      then Some (foldl (\<lambda>n c. n * 10 + digit_val c) 0 p) else None)"

definition isLeap :: "nat \<Rightarrow> bool" where
  "isLeap year = (year mod 4 = 0 \<and> (year mod 100 \<noteq> 0 \<or> year mod 400 = 0))"

definition daysIn :: "nat \<Rightarrow> nat \<Rightarrow> nat" where
  "daysIn m year =
     (if m = 2 \<and> isLeap year then 29
      else [31, 28, 31, 30, 31, 30, 31, 31, 30, 31, 30, 31] ! (m - 1))"

definition time_Parse_roamDaily :: "string \<Rightarrow> error + (nat \<times> nat \<times> nat)" where
  "time_Parse_roamDaily val =
     (case lookup_from 1 longMonthNames val of
        None \<Rightarrow> Inl (ParseError val ''cannot parse month'')
      | Some (month, v1) \<Rightarrow>
     (case skip_space v1 of
        None \<Rightarrow> Inl (ParseError val ''cannot parse as blank'')
      | Some v2 \<Rightarrow>
     (case getnum (if v2 \<noteq> [] \<and> hd v2 = CHR '' '' then tl v2 else v2) of
        None \<Rightarrow> Inl (ParseError val ''cannot parse day'')
      | Some (day, v3) \<Rightarrow>
     (case skip_space v3 of
        None \<Rightarrow> Inl (ParseError val ''cannot parse as blank'')
      | Some v4 \<Rightarrow>
          if length v4 < 4 \<or> \<not> is_digit (hd v4) then Inl (ParseError val ''cannot parse year'')
          else (case atoi4 (take 4 v4) of
                  None \<Rightarrow> Inl (ParseError val ''cannot parse year'')
                | Some year \<Rightarrow>
                    if drop 4 v4 \<noteq> [] then Inl (ParseError val ''extra text'')
                    else if day < 1 \<or> daysIn month year < day
                    then Inl (ParseError val ''day out of range'')
                    else Inr (year, month, day))))))"

definition digit_char :: "nat \<Rightarrow> char" where
  "digit_char n = ''0123456789'' ! (n mod 10)"

definition zero_pad2 :: "nat \<Rightarrow> string" where
  "zero_pad2 n = [digit_char (n div 10), digit_char n]"

definition zero_pad4 :: "nat \<Rightarrow> string" where
  "zero_pad4 n = [digit_char (n div 1000), digit_char (n div 100), digit_char (n div 10), digit_char n]"

text \<open>\<open>t.Format("2006-01-02")\<close> for a year below 10000.\<close>

definition Format_obsDaily :: "nat \<times> nat \<times> nat \<Rightarrow> string" where
  "Format_obsDaily t =
     (case t of (year, month, day) \<Rightarrow>
        zero_pad4 year @ ''-'' @ zero_pad2 month @ ''-'' @ zero_pad2 day)"

text \<open>\<open>parseRoamDate\<close>: the Go triple (text, flag, error) as an error or the pair.\<close>

definition parseRoamDate :: "string \<Rightarrow> error + (string \<times> bool)" where
  "parseRoamDate inp =
     (let match = FindAllStringSubmatch_anchored reDaily inp in
      if length match \<noteq> 1 then Inr (inp, False)
      else
        (let row = match ! 0;
             rawTitle = row ! 1 @ '' '' @ row ! 2 @ '' '' @ row ! 3
         in case time_Parse_roamDaily rawTitle of
              Inl err \<Rightarrow> Inl err
            | Inr t \<Rightarrow> Inr (Format_obsDaily t, True)))"

section \<open>Resolving references (replaceDayLinks, replaceBlockRefs)\<close>

text \<open>
  Both functions loop until a search finds nothing, and nothing in the code bounds the
  number of rounds. The loops therefore take fuel, one unit per round; \<open>None\<close> says the
  fuel ran out before the loop ended.
\<close>

fun replaceDayLinks :: "nat \<Rightarrow> string \<Rightarrow> (error + string) option" where
  "replaceDayLinks 0 update = None"
| "replaceDayLinks (Suc n) update =
     (case FindStringSubmatchIndex reDayLink update of
        None \<Rightarrow> Some (Inr update)
      | Some (head, caps, m, tail) \<Rightarrow>
          (let date = caps ! 1 in
           case parseRoamDate date of
             Inl err \<Rightarrow> Some (Inl (Errorf (''invalid date '' @ date) err))
           | Inr (obsDate, ok) \<Rightarrow>
               replaceDayLinks n ((head @ ''[['') @ obsDate @ ('']]'' @ tail))))"

definition regexList :: "rx list" where
  "regexList = [reBlockEmbed, reBlockMentions, reBlockRef]"

text \<open>
  The state of \<open>replaceBlockRefs\<close>: the text being rewritten, the set of referenced ids
  (the caller's map, updated in place) and the lines printed on standard output.
  \<open>fmt.Println("**** did not find uid:", uid)\<close> prints one line.
\<close>

definition diagnostic :: "string \<Rightarrow> string" where
  "diagnostic uid = ''**** did not find uid: '' @ uid"

definition replacement :: "Child \<Rightarrow> string" where
  "replacement child = String child @ '' [['' @ Title (Page child) @ ''#^'' @ UID child @ '']]''"

text \<open>
  The inner \<open>for _, re := range regexList\<close>. The flag is \<open>match != nil\<close>: it starts false
  (\<open>var match []int\<close>), a pattern that finds nothing leaves the loop at once
  (\<open>break\<close>), an unknown id prints the diagnostic and goes on to the next pattern
  (\<open>continue\<close>).
\<close>

fun scan_patterns ::
  "rx list \<Rightarrow> (string \<rightharpoonup> Child) \<Rightarrow> bool \<Rightarrow> string \<Rightarrow> string set \<Rightarrow> string list
     \<Rightarrow> bool \<times> string \<times> string set \<times> string list" where
  "scan_patterns [] uidBlock matched update referencedUID out = (matched, update, referencedUID, out)"
| "scan_patterns (re # res) uidBlock matched update referencedUID out =
     (case FindStringSubmatchIndex re update of
        None \<Rightarrow> (False, update, referencedUID, out)
      | Some (head, caps, m, tail) \<Rightarrow>
          (let uid = caps ! 1 in
           case uidBlock uid of
             None \<Rightarrow> scan_patterns res uidBlock True update referencedUID (out @ [diagnostic uid])
           | Some child \<Rightarrow>
               scan_patterns res uidBlock True (head @ replacement child @ tail)
                 (insert uid referencedUID) out))"

fun replace_loop ::
  "nat \<Rightarrow> (string \<rightharpoonup> Child) \<Rightarrow> string \<Rightarrow> string set \<Rightarrow> string list
     \<Rightarrow> (string \<times> string set \<times> string list) option" where
  "replace_loop 0 uidBlock update referencedUID out = None"
| "replace_loop (Suc n) uidBlock update referencedUID out =
     (case scan_patterns regexList uidBlock False update referencedUID out of
        (matched, update', referencedUID', out') \<Rightarrow>
          if \<not> matched then Some (update', referencedUID', out')
          else replace_loop n uidBlock update' referencedUID' out')"

definition replaceBlockRefs ::
  "nat \<Rightarrow> string \<Rightarrow> (string \<rightharpoonup> Child) \<Rightarrow> string set \<Rightarrow> string list
     \<Rightarrow> ((error + string) \<times> string set \<times> string list) option" where
  "replaceBlockRefs n s uidBlock referencedUID out =
     (case replace_loop n uidBlock s referencedUID out of
        None \<Rightarrow> None
      | Some (update, referencedUID', out') \<Rightarrow>
          (case replaceDayLinks n update of
             None \<Rightarrow> None
           | Some r \<Rightarrow> Some (r, referencedUID', out')))"

section \<open>Rendering (expandChildren)\<close>

text \<open>\<open>strings.ReplaceAll(s, "\n", new)\<close>\<close>

definition ReplaceAll_newline :: "string \<Rightarrow> string \<Rightarrow> string" where
  "ReplaceAll_newline s new = concat (map (\<lambda>c. if c = CHR 0x0A then new else [c]) s)"

definition line_prefix :: "nat \<Rightarrow> Child \<Rightarrow> string" where
  "line_prefix level child =
     (let prefix = (if level > 0 then replicate (4 * level) (CHR '' '') else []);
          prefix = (if Heading child > 0
                    then replicate (nat (Heading child)) (CHR ''#'') @ '' '' @ prefix
                    else prefix)
      in if length (RawChildren child) > 0 \<and> level > 0 then prefix @ ''* '' else prefix)"

definition line_postfix :: "string set \<Rightarrow> Child \<Rightarrow> string" where
  "line_postfix referencedUID child =
     (if UID child \<in> referencedUID then '' ^'' @ UID child else [])"

definition render_line :: "string \<Rightarrow> string \<Rightarrow> string \<Rightarrow> string" where
  "render_line prefix updated postfix =
     (let s = prefix @ updated @ postfix
      in if CHR 0x0A \<in> set s then ReplaceAll_newline s (CHR 0x0A # prefix) @ [CHR 0x0A] else s)"

text \<open>
  \<open>expandChildren\<close> over \<open>parent.Children()\<close>, the first argument after the fuel. The
  anchor is decided before the block's own text is resolved, as in the code.
\<close>

fun expandChildren ::
  "nat \<Rightarrow> Child list \<Rightarrow> (string \<rightharpoonup> Child) \<Rightarrow> string set \<Rightarrow> string list \<Rightarrow> nat
     \<Rightarrow> ((error + string list) \<times> string set \<times> string list) option" where
  "expandChildren n [] uidBlock referencedUID out level = Some (Inr [], referencedUID, out)"
| "expandChildren n (Child uid str kids heading pg # rest) uidBlock referencedUID out level =
     (let child = Child uid str kids heading pg;
          prefix = line_prefix level child;
          postfix = line_postfix referencedUID child
      in case replaceBlockRefs n str uidBlock referencedUID out of
           None \<Rightarrow> None
         | Some (Inl err, referencedUID1, out1) \<Rightarrow> Some (Inl err, referencedUID1, out1)
         | Some (Inr updated, referencedUID1, out1) \<Rightarrow>
             (case expandChildren n kids uidBlock referencedUID1 out1 (level + 1) of
                None \<Rightarrow> None
              | Some (Inl err, referencedUID2, out2) \<Rightarrow> Some (Inl err, referencedUID2, out2)
              | Some (Inr expanded, referencedUID2, out2) \<Rightarrow>
                  (case expandChildren n rest uidBlock referencedUID2 out2 level of
                     None \<Rightarrow> None
                   | Some (Inl err, referencedUID3, out3) \<Rightarrow> Some (Inl err, referencedUID3, out3)
                   | Some (Inr following, referencedUID3, out3) \<Rightarrow>
                       Some (Inr (render_line prefix updated postfix # expanded @ following),
                             referencedUID3, out3))))"

section \<open>The three passes and the driver\<close>

fun collectBlocks :: "(string \<rightharpoonup> Child) \<Rightarrow> PageHead \<Rightarrow> Child list \<Rightarrow> (string \<rightharpoonup> Child)" where
  "collectBlocks uidList page [] = uidList"
| "collectBlocks uidList page (Child uid str kids heading pg # rest) =
     collectBlocks
       (collectBlocks (uidList(uid \<mapsto> Child uid str kids heading page)) page kids)
       page rest"

text \<open>
  \<open>parsePageDate\<close> gets a pointer to a page and sets its daily flag; the page is
  returned next to the title.
\<close>

definition parsePageDate :: "Page \<Rightarrow> error + (string \<times> Page)" where
  "parsePageDate page =
     (case parseRoamDate (Title page) of
        Inl err \<Rightarrow> Inl err
      | Inr (update, ok) \<Rightarrow> Inr (update, if ok then page\<lparr>IsDaily := True\<rparr> else page))"

text \<open>
  The loop of \<open>pass1\<close>. \<open>page\<close> is the loop's copy of \<open>pages[i]\<close>: \<open>parsePageDate\<close> and
  \<open>collectBlocks\<close> work on the copy, and only the title is stored back into
  \<open>pages[i]\<close>. The result is the index and the slice as it is left.
\<close>

fun pass1_loop :: "(string \<rightharpoonup> Child) \<Rightarrow> Page list \<Rightarrow> error + ((string \<rightharpoonup> Child) \<times> Page list)" where
  "pass1_loop uidBlock [] = Inr (uidBlock, [])"
| "pass1_loop uidBlock (page # pages) =
     (case parsePageDate page of
        Inl err \<Rightarrow> Inl (Errorf ''parse page date'' err)
      | Inr (title, page') \<Rightarrow>
          (case pass1_loop (collectBlocks uidBlock (PageHead.truncate page') (PageRawChildren page'))
                  pages of
             Inl err \<Rightarrow> Inl err
           | Inr (uidBlock', pages') \<Rightarrow> Inr (uidBlock', page\<lparr>Title := title\<rparr> # pages')))"

definition pass1 :: "Page list \<Rightarrow> string list \<Rightarrow> (error + ((string \<rightharpoonup> Child) \<times> Page list)) \<times> string list" where
  "pass1 pages out = (pass1_loop Map.empty pages, out @ [''Pass 1: scan all pages''])"

fun pass2_loop ::
  "nat \<Rightarrow> Page list \<Rightarrow> (string \<rightharpoonup> Child) \<Rightarrow> string set \<Rightarrow> string list
     \<Rightarrow> (error option \<times> string set \<times> string list) option" where
  "pass2_loop n [] uidBlock referencedUID out = Some (None, referencedUID, out)"
| "pass2_loop n (page # pages) uidBlock referencedUID out =
     (case expandChildren n (PageRawChildren page) uidBlock referencedUID out 0 of
        None \<Rightarrow> None
      | Some (Inl err, referencedUID', out') \<Rightarrow> Some (Some (Errorf ''pass2'' err), referencedUID', out')
      | Some (Inr lines, referencedUID', out') \<Rightarrow> pass2_loop n pages uidBlock referencedUID' out')"

definition pass2 ::
  "nat \<Rightarrow> Page list \<Rightarrow> (string \<rightharpoonup> Child) \<Rightarrow> string set \<Rightarrow> string list
     \<Rightarrow> (error option \<times> string set \<times> string list) option" where
  "pass2 n pages uidBlock referencedUID out =
     pass2_loop n pages uidBlock referencedUID (out @ [''Pass 2: track blockrefs''])"

text \<open>
  The file system is outside the program. A path is kept as the call that builds it;
  \<open>os.MkdirAll\<close> and \<open>os.WriteFile\<close> are recorded in the order they succeed, and whether
  one fails is a parameter (\<open>mkdir_fails\<close>, \<open>write_fails\<close>). The progress bar writes to
  standard error and is left out, as is the local \<open>title\<close> of \<open>pass3\<close>, which is computed
  and never used.
\<close>

datatype path = Join "string list" | Dir path

datatype fsop = MkdirAll path | WriteFile path string

record os_env =
  mkdir_fails :: "path \<Rightarrow> bool"
  write_fails :: "path \<Rightarrow> bool"

text \<open>\<open>strings.Join(lines, "\n")\<close>\<close>

fun Join_lines :: "string list \<Rightarrow> string" where
  "Join_lines [] = []"
| "Join_lines [l] = l"
| "Join_lines (l # ls) = l @ [CHR 0x0A] @ Join_lines ls"

definition page_dest :: "string \<Rightarrow> Page \<Rightarrow> path" where
  "page_dest outDir page =
     (if IsDaily page then Join [outDir, ''daily'', Title page @ ''.md'']
      else Join [outDir, Title page @ ''.md''])"

fun pass3 ::
  "nat \<Rightarrow> os_env \<Rightarrow> Page list \<Rightarrow> (string \<rightharpoonup> Child) \<Rightarrow> string set \<Rightarrow> string
     \<Rightarrow> string list \<Rightarrow> fsop list
     \<Rightarrow> (error option \<times> string set \<times> string list \<times> fsop list) option" where
  "pass3 n env [] uidBlock referencedUID outDir out fs = Some (None, referencedUID, out, fs)"
| "pass3 n env (page # pages) uidBlock referencedUID outDir out fs =
     (if Title page = [] then pass3 n env pages uidBlock referencedUID outDir out fs
      else
        (let dest = page_dest outDir page;
             dir = Dir dest
         in if mkdir_fails env dir then Some (Some (PathError ''mkdir''), referencedUID, out, fs)
            else
              (case expandChildren n (PageRawChildren page) uidBlock referencedUID out 0 of
                 None \<Rightarrow> None
               | Some (Inl err, referencedUID', out') \<Rightarrow>
                   Some (Some err, referencedUID', out', fs @ [MkdirAll dir])
               | Some (Inr lines, referencedUID', out') \<Rightarrow>
                   if write_fails env dest
                   then Some (Some (PathError ''write''), referencedUID', out', fs @ [MkdirAll dir])
                   else pass3 n env pages uidBlock referencedUID' outDir out'
                          (fs @ [MkdirAll dir, WriteFile dest (Join_lines lines)]))))"

text \<open>
  \<open>run\<close>, from the pages \<open>loadJSON\<close> returned on: the result is the error (if any), the
  lines printed and the file system calls that succeeded.
\<close>

definition link_children :: "Page \<Rightarrow> Page" where
  "link_children page =
     page\<lparr>PageRawChildren := map (\<lambda>c. set_Page c (PageHead.truncate page)) (PageRawChildren page)\<rparr>"

definition run :: "nat \<Rightarrow> os_env \<Rightarrow> Page list \<Rightarrow> string \<Rightarrow> (error option \<times> string list \<times> fsop list) option" where
  "run n env pages0 outDir =
     (let pages = map link_children pages0 in
      case pass1 pages [] of
        (Inl err, out) \<Rightarrow> Some (Some (Errorf ''pass1'' err), out, [])
      | (Inr (uidBlock, pages'), out) \<Rightarrow>
          (case pass2 n pages' uidBlock {} out of
             None \<Rightarrow> None
           | Some (Some err, referencedUID, out') \<Rightarrow> Some (Some (Errorf ''pass2'' err), out', [])
           | Some (None, referencedUID, out') \<Rightarrow>
               (case pass3 n env pages' uidBlock referencedUID outDir out' [] of
                  None \<Rightarrow> None
                | Some (err, referencedUID', out'', fs) \<Rightarrow> Some (err, out'', fs))))"

section \<open>The rendering the specification describes (sections 3 and 4.4)\<close>

text \<open>
  The specification reads the set of referenced ids as fixed while the pages are
  rendered: a block gets its anchor if and only if its id is in the set Pass 2 has
  built. \<open>anchored_lines\<close> is that rendering, written from the specification's words:
  every block's line is its prefix, its resolved text and the anchor decided by the one
  set \<open>R\<close>, followed by the lines of its children one level deeper.
  \<open>resolved_text\<close> and \<open>resolved_ids\<close> name the text \<open>replaceBlockRefs\<close> returns for a
  block text and the ids it records on the way; \<open>all_blocks\<close> lists the blocks of a forest
  in document order.
\<close>

definition resolved_text :: "nat \<Rightarrow> (string \<rightharpoonup> Child) \<Rightarrow> string \<Rightarrow> string" where
  "resolved_text n uidBlock s =
     (case replaceBlockRefs n s uidBlock {} [] of
        Some (Inr updated, A, d) \<Rightarrow> updated
      | _ \<Rightarrow> [])"

definition resolved_ids :: "nat \<Rightarrow> (string \<rightharpoonup> Child) \<Rightarrow> string \<Rightarrow> string set" where
  "resolved_ids n uidBlock s =
     (case replaceBlockRefs n s uidBlock {} [] of
        Some (r, A, d) \<Rightarrow> A
      | None \<Rightarrow> {})"

fun all_blocks :: "Child list \<Rightarrow> Child list" where
  "all_blocks [] = []"
| "all_blocks (Child uid str kids heading pg # rest) =
     Child uid str kids heading pg # all_blocks kids @ all_blocks rest"

fun anchored_lines :: "(string \<Rightarrow> string) \<Rightarrow> string set \<Rightarrow> nat \<Rightarrow> Child list \<Rightarrow> string list" where
  "anchored_lines resolve R level [] = []"
| "anchored_lines resolve R level (Child uid str kids heading pg # rest) =
     render_line (line_prefix level (Child uid str kids heading pg)) (resolve str)
       (if uid \<in> R then '' ^'' @ uid else [])
     # anchored_lines resolve R (level + 1) kids @ anchored_lines resolve R level rest"

text \<open>
  \<open>blocks_at depth cs\<close> lists the blocks of a forest in document order, each with its
  nesting depth: the blocks of \<open>cs\<close> are at depth \<open>depth\<close>, their children one deeper.
  The children of a page are at depth 0 (\<open>pass2\<close> and \<open>pass3\<close> call \<open>expandChildren\<close> on
  a page with level 0).
\<close>

fun blocks_at :: "nat \<Rightarrow> Child list \<Rightarrow> (nat \<times> Child) list" where
  "blocks_at depth [] = []"
| "blocks_at depth (Child uid str kids heading pg # rest) =
     (depth, Child uid str kids heading pg) # blocks_at (depth + 1) kids @ blocks_at depth rest"

section \<open>The rewriting of daily date links the specification describes (section 4.1)\<close>

text \<open>
  Written from the specification's words: within a block text, the substrings wrapped
  in double brackets whose inner text is the daily date pattern get their inner text
  rewritten to the canonical date, the brackets stay, and a date that is not a calendar
  date is an error.

  \<open>daily_link_at s\<close> says whether such a link starts at the head of \<open>s\<close>, and gives its
  inner text: \<open>[[\<close>, an inner text up to the next \<open>]\<close> that matches the daily date pattern
  \<open>reDaily\<close>, and \<open>]]\<close>.

  \<open>rewrite_day_links\<close> is the rewriting in one pass from left to right: a character
  where no daily link starts is copied; a daily link becomes \<open>[[\<close>, the canonical form
  of its date and \<open>]]\<close>, and the pass goes on behind the link; the first link whose date
  is not a calendar date ends the pass with the error \<open>invalid date\<close> naming its inner
  text.

  \<open>only_daily_links s\<close> says that the pattern \<open>reDayLink\<close> of the code matches in \<open>s\<close>
  only at positions where a daily link starts. (Its month names are a character class,
  so it also matches texts such as \<open>[[Jan 5th, 2024]]\<close>, which are no daily links.)
\<close>

definition daily_link_at :: "string \<Rightarrow> string option" where
  "daily_link_at s =
     (let d = takeWhile (\<lambda>c. c \<noteq> CHR '']'') (drop 2 s)
      in if take 2 s = ''[['' \<and> take 2 (drop (length d + 2) s) = '']]''
            \<and> FindAllStringSubmatch_anchored reDaily d \<noteq> []
         then Some d else None)"

fun rewrite_day_links :: "string \<Rightarrow> error + string" where
  "rewrite_day_links [] = Inr []"
| "rewrite_day_links (c # cs) =
     (case daily_link_at (c # cs) of
        None \<Rightarrow> (case rewrite_day_links cs of Inl err \<Rightarrow> Inl err | Inr t \<Rightarrow> Inr (c # t))
      | Some d \<Rightarrow>
          (case parseRoamDate d of
             Inl err \<Rightarrow> Inl (Errorf (''invalid date '' @ d) err)
           | Inr (obsDate, ok) \<Rightarrow>
               (case rewrite_day_links (drop (length d + 3) cs) of
                  Inl err \<Rightarrow> Inl err
                | Inr t \<Rightarrow> Inr (''[['' @ obsDate @ '']]'' @ t))))"

fun only_daily_links :: "string \<Rightarrow> bool" where
  "only_daily_links [] = True"
| "only_daily_links (c # cs) =
     ((case reDayLink (c # cs) of
         [] \<Rightarrow> True
       | x # xs \<Rightarrow> (case daily_link_at (c # cs) of None \<Rightarrow> False | Some d \<Rightarrow> True))
      \<and> only_daily_links cs)"

section \<open>Verification\<close>

subsection \<open>Plain references and unknown ids (replaceBlockRefs)\<close>

text \<open>
  A text in which the embed pattern finds nothing leaves both loops in the first round:
  whatever mentions and plain references it holds, nothing is looked up.
\<close>

lemma replace_loop_without_embed:
  "FindStringSubmatchIndex reBlockEmbed s = None
     \<Longrightarrow> replace_loop (Suc n) uidBlock s referencedUID out = Some (s, referencedUID, out)"
  by (simp add: regexList_def)

lemma find_embed_plain_ref: "FindStringSubmatchIndex reBlockEmbed ''((abc123456))'' = None"
  by code_simp

lemma find_daylink_plain_ref: "FindStringSubmatchIndex reDayLink ''((abc123456))'' = None"
  by code_simp

text \<open>
  C1 (the code departs from the claim). The claim: the first occurrence of any of the
  three reference syntaxes with a known id is replaced by the target's text and link and
  the id is recorded; in particular a text that is only a plain reference to a known id.
  The code: the embed pattern is tried first and, finding nothing, ends the inner loop
  and with it the outer one. The text \<open>((abc123456))\<close>, with \<open>abc123456\<close> a key of the
  index, comes back unchanged and the set of referenced ids is as before, whatever the
  fuel.
\<close>

theorem plain_reference_not_resolved:
  "replaceBlockRefs (Suc n) ''((abc123456))'' (uidBlock(''abc123456'' \<mapsto> child)) referencedUID out
     = Some (Inr ''((abc123456))'', referencedUID, out)"
  by (simp add: replaceBlockRefs_def regexList_def find_embed_plain_ref find_daylink_plain_ref)

lemma find_embed_unknown: "FindStringSubmatchIndex reBlockEmbed ''((unknown12))'' = None"
  by code_simp

lemma find_daylink_unknown: "FindStringSubmatchIndex reDayLink ''((unknown12))'' = None"
  by code_simp

text \<open>
  C5 (the code departs from the claim). The claim: every reference to an id that is not
  in the index is left unchanged, produces exactly one diagnostic line, and resolution
  goes on. The code: for the text \<open>((unknown12))\<close> and the empty index the embed pattern
  finds nothing and ends the loops before the plain reference is looked at; the text is
  unchanged and no line at all is printed.
\<close>

theorem unknown_plain_reference_no_diagnostic:
  "replaceBlockRefs (Suc n) ''((unknown12))'' Map.empty referencedUID out
     = Some (Inr ''((unknown12))'', referencedUID, out)"
  by (simp add: replaceBlockRefs_def regexList_def find_embed_unknown find_daylink_unknown)

text \<open>
  When all three syntaxes occur and no id is known, the inner loop ends with a match in
  hand and nothing changed, so the outer loop runs the same round again, printing the
  same diagnostics, and never ends.
\<close>

lemma scan_unknown_ids:
  "scan_patterns regexList Map.empty False
     ''{{embed: ((aaaaaaaaa))}}{{mentions: ((bbbbbbbbb))}}'' R out
   = (True, ''{{embed: ((aaaaaaaaa))}}{{mentions: ((bbbbbbbbb))}}'', R,
      out @ [diagnostic ''aaaaaaaaa'', diagnostic ''bbbbbbbbb'', diagnostic ''aaaaaaaaa''])"
proof -
  have e: "FindStringSubmatchIndex reBlockEmbed ''{{embed: ((aaaaaaaaa))}}{{mentions: ((bbbbbbbbb))}}''
      = Some ([], [''{{embed: (('', ''aaaaaaaaa'', ''))}}''], ''{{embed: ((aaaaaaaaa))}}'',
              ''{{mentions: ((bbbbbbbbb))}}'')"
    by code_simp
  have m: "FindStringSubmatchIndex reBlockMentions ''{{embed: ((aaaaaaaaa))}}{{mentions: ((bbbbbbbbb))}}''
      = Some (''{{embed: ((aaaaaaaaa))}}'', [''{{mentions: (('', ''bbbbbbbbb'', ''))}}''],
              ''{{mentions: ((bbbbbbbbb))}}'', [])"
    by code_simp
  have r: "FindStringSubmatchIndex reBlockRef ''{{embed: ((aaaaaaaaa))}}{{mentions: ((bbbbbbbbb))}}''
      = Some (''{{embed: '', [''(('', ''aaaaaaaaa'', ''))''], ''((aaaaaaaaa))'',
              ''}}{{mentions: ((bbbbbbbbb))}}'')"
    by code_simp
  show ?thesis
    by (simp add: regexList_def e m r)
qed

lemma replace_loop_unknown_ids_never_returns:
  "replace_loop n Map.empty ''{{embed: ((aaaaaaaaa))}}{{mentions: ((bbbbbbbbb))}}'' R out = None"
  by (induction n arbitrary: out) (simp_all add: scan_unknown_ids)

subsection \<open>The date link loop (replaceDayLinks)\<close>

lemma find_daylink_Jan:
  "FindStringSubmatchIndex reDayLink ''[[Jan 5th, 2024]]''
     = Some ([], [''[['', ''Jan 5th, 2024'', '']]''], ''[[Jan 5th, 2024]]'', [])"
  by code_simp

lemma parseRoamDate_Jan: "parseRoamDate ''Jan 5th, 2024'' = Inr (''Jan 5th, 2024'', False)"
  by code_simp

text \<open>
  C10 (the code departs from the claim). The claim: \<open>replaceDayLinks\<close> returns, with a
  text or a date error, for every input. The code: \<open>reDayLink\<close> matches
  \<open>[[Jan 5th, 2024]]\<close> (its month names are a character class), \<open>parseRoamDate\<close> does not
  take \<open>Jan 5th, 2024\<close> for a date and hands it back unchanged, and the loop writes the
  same text again: no amount of fuel is enough.
\<close>

theorem replaceDayLinks_never_returns:
  "replaceDayLinks n ''[[Jan 5th, 2024]]'' = None"
  by (induction n) (simp_all add: find_daylink_Jan parseRoamDate_Jan)

subsection \<open>The daily flag and the title held by the index (pass1)\<close>

lemma parseRoamDate_January_5th: "parseRoamDate ''January 5th, 2024'' = Inr (''2024-01-05'', True)"
  by code_simp

text \<open>
  C3 (the code departs from the claim). The claim: for a title that is a valid daily
  title Pass 1 stores the canonical title and sets that page's daily flag. The code:
  \<open>parsePageDate\<close> sets the flag on the loop's copy of the page, and only the title is
  written back to \<open>pages[i]\<close>. After Pass 1 the page "January 5th, 2024" has the title
  "2024-01-05" and its flag is still false.
\<close>

theorem daily_flag_not_stored:
  "pass1 [\<lparr>Title = ''January 5th, 2024'', IsDaily = False, PageRawChildren = []\<rparr>] []
     = (Inr (Map.empty, [\<lparr>Title = ''2024-01-05'', IsDaily = False, PageRawChildren = []\<rparr>]),
        [''Pass 1: scan all pages''])"
  by (simp add: pass1_def parsePageDate_def parseRoamDate_January_5th)

text \<open>
  C2 (the code departs from the claim). The claim: a page recognized as a daily note is
  written to \<open>daily/<YYYY-MM-DD>.md\<close> under the output directory. The code: Pass 3
  reads the daily flag of the stored page, which Pass 1 never sets (see C3), and the
  page "January 5th, 2024" is written to \<open>2024-01-05.md\<close> directly under the output
  directory.
\<close>

theorem daily_page_not_under_daily:
  "run n \<lparr>mkdir_fails = (\<lambda>p. False), write_fails = (\<lambda>p. False)\<rparr>
       [\<lparr>Title = ''January 5th, 2024'', IsDaily = False, PageRawChildren = []\<rparr>] ''out''
     = Some (None, [''Pass 1: scan all pages'', ''Pass 2: track blockrefs''],
             [MkdirAll (Dir (Join [''out'', ''2024-01-05.md''])),
              WriteFile (Join [''out'', ''2024-01-05.md'']) []])"
  by (simp add: run_def link_children_def pass1_def pass2_def parsePageDate_def
        parseRoamDate_January_5th page_dest_def Let_def)

lemma parseRoamDate_Notes: "parseRoamDate ''Notes'' = Inr (''Notes'', False)"
  by code_simp

lemma find_embed_Buy_milk: "FindStringSubmatchIndex reBlockEmbed ''Buy milk'' = None"
  by code_simp

lemma find_daylink_Buy_milk: "FindStringSubmatchIndex reDayLink ''Buy milk'' = None"
  by code_simp

lemma find_embed_embed:
  "FindStringSubmatchIndex reBlockEmbed ''{{embed: ((abc123456))}}''
     = Some ([], [''{{embed: (('', ''abc123456'', ''))}}''], ''{{embed: ((abc123456))}}'', [])"
  by code_simp

lemma find_mentions_resolved:
  "FindStringSubmatchIndex reBlockMentions ''Buy milk [[January 5th, 2024#^abc123456]]'' = None"
  by code_simp

lemma find_daylink_resolved:
  "FindStringSubmatchIndex reDayLink ''Buy milk [[January 5th, 2024#^abc123456]]'' = None"
  by code_simp

text \<open>
  C9 (the code departs from the claim). The claim: the link of a resolved reference
  names the target page by its title after Pass 1, so a reference to a block of a
  daily page links to the \<open>YYYY-MM-DD\<close> name the page is saved under. The code: the
  index holds, with each block, the loop's copy of the page, whose title is the one
  before normalization. The page "January 5th, 2024" is saved as \<open>2024-01-05.md\<close>,
  and the reference to its block is written as \<open>[[January 5th, 2024#^abc123456]]\<close>.
\<close>

theorem link_names_title_before_normalization:
  "run (Suc n) \<lparr>mkdir_fails = (\<lambda>p. False), write_fails = (\<lambda>p. False)\<rparr>
       [\<lparr>Title = ''January 5th, 2024'', IsDaily = False,
          PageRawChildren = [Child ''abc123456'' ''Buy milk'' [] 0 \<lparr>Title = [], IsDaily = False\<rparr>]\<rparr>,
        \<lparr>Title = ''Notes'', IsDaily = False,
          PageRawChildren = [Child ''xyz123456'' ''{{embed: ((abc123456))}}'' [] 0
                               \<lparr>Title = [], IsDaily = False\<rparr>]\<rparr>]
       ''out''
     = Some (None, [''Pass 1: scan all pages'', ''Pass 2: track blockrefs''],
             [MkdirAll (Dir (Join [''out'', ''2024-01-05.md''])),
              WriteFile (Join [''out'', ''2024-01-05.md'']) ''Buy milk ^abc123456'',
              MkdirAll (Dir (Join [''out'', ''Notes.md''])),
              WriteFile (Join [''out'', ''Notes.md''])
                ''Buy milk [[January 5th, 2024#^abc123456]]''])"
  by (simp add: run_def link_children_def set_Page_def pass1_def pass2_def parsePageDate_def
        parseRoamDate_January_5th parseRoamDate_Notes page_dest_def PageHead.truncate_def
        replaceBlockRefs_def regexList_def replacement_def line_prefix_def line_postfix_def
        render_line_def find_embed_Buy_milk find_daylink_Buy_milk find_embed_embed
        find_mentions_resolved find_daylink_resolved Let_def)

subsection \<open>An invalid date in a page title (run, pass1)\<close>

lemma Title_link_children: "Title (link_children p) = Title p"
  by (simp add: link_children_def)

lemma parseRoamDate_error_iff:
  "parseRoamDate t = Inl err \<longleftrightarrow>
     (\<exists>row. FindAllStringSubmatch_anchored reDaily t = [row]
        \<and> time_Parse_roamDaily (row ! 1 @ '' '' @ row ! 2 @ '' '' @ row ! 3) = Inl err)"
proof -
  have one: "length (FindAllStringSubmatch_anchored reDaily t) = 1
     \<longleftrightarrow> (\<exists>row. FindAllStringSubmatch_anchored reDaily t = [row])"
    by (auto simp: length_Suc_conv)
  show ?thesis
    unfolding parseRoamDate_def Let_def using one
    by (auto split: sum.splits)
qed

lemma parsePageDate_error_iff:
  "parsePageDate page = Inl err \<longleftrightarrow> parseRoamDate (Title page) = Inl err"
  by (simp add: parsePageDate_def split: sum.splits prod.splits)

lemma pass1_loop_invalid_date:
  "page \<in> set pages \<Longrightarrow> parseRoamDate (Title page) = Inl err
     \<Longrightarrow> \<exists>e. pass1_loop uidBlock pages = Inl (Errorf ''parse page date'' e)"
proof (induction pages arbitrary: uidBlock)
  case Nil
  then show ?case by simp
next
  case (Cons p ps)
  show ?case
  proof (cases "parsePageDate p")
    case (Inl e)
    then show ?thesis by simp
  next
    case (Inr r)
    obtain title p' where r: "r = (title, p')" by (cases r)
    from Inr have "parseRoamDate (Title p) \<noteq> Inl err"
      using parsePageDate_error_iff [of p err] by simp
    with Cons.prems have "page \<in> set ps" by auto
    from Cons.IH [OF this Cons.prems(2)]
    obtain e where "pass1_loop (collectBlocks uidBlock (PageHead.truncate p') (PageRawChildren p')) ps
        = Inl (Errorf ''parse page date'' e)" by blast
    with Inr r show ?thesis by simp
  qed
qed

text \<open>
  C4. If the title of any page matches the daily pattern (\<open>reDaily\<close> finds its one row)
  and \<open>time.Parse\<close> rejects the date put together from the row, then \<open>run\<close> returns,
  whatever the fuel and the file system, with the error of Pass 1 (a parse error of
  \<open>parsePageDate\<close>), after printing the first pass's line only and without a single
  call to the file system: no directory made, no file written.
\<close>

theorem invalid_daily_title_aborts_in_pass1:
  assumes "page \<in> set pages"
    and "FindAllStringSubmatch_anchored reDaily (Title page) = [row]"
    and "time_Parse_roamDaily (row ! 1 @ '' '' @ row ! 2 @ '' '' @ row ! 3) = Inl err"
  shows "\<exists>e. run n env pages outDir
           = Some (Some (Errorf ''pass1'' (Errorf ''parse page date'' e)),
                   [''Pass 1: scan all pages''], [])"
proof -
  from assms(2,3) have bad: "parseRoamDate (Title page) = Inl err"
    using parseRoamDate_error_iff by blast
  have "link_children page \<in> set (map link_children pages)"
    using assms(1) by simp
  moreover have "parseRoamDate (Title (link_children page)) = Inl err"
    using bad by (simp add: Title_link_children)
  ultimately obtain e where
    "pass1_loop Map.empty (map link_children pages) = Inl (Errorf ''parse page date'' e)"
    using pass1_loop_invalid_date by blast
  then show ?thesis by (simp add: run_def pass1_def)
qed

lemma reDaily_February_30th:
  "FindAllStringSubmatch_anchored reDaily ''February 30th, 2024''
     = [[''February 30th, 2024'', ''February'', ''30'', ''2024'']]"
  by code_simp

lemma time_Parse_February_30:
  "time_Parse_roamDaily ''February 30 2024'' = Inl (ParseError ''February 30 2024'' ''day out of range'')"
  by code_simp

theorem invalid_daily_title_aborts_in_pass1_witness:
  "\<lparr>Title = ''February 30th, 2024'', IsDaily = False, PageRawChildren = []\<rparr>
      \<in> set [\<lparr>Title = ''Notes'', IsDaily = False, PageRawChildren = []\<rparr>,
              \<lparr>Title = ''February 30th, 2024'', IsDaily = False, PageRawChildren = []\<rparr>]
   \<and> FindAllStringSubmatch_anchored reDaily ''February 30th, 2024''
       = [[''February 30th, 2024'', ''February'', ''30'', ''2024'']]
   \<and> time_Parse_roamDaily ''February 30 2024''
       = Inl (ParseError ''February 30 2024'' ''day out of range'')
   \<and> (\<exists>e. run 3 \<lparr>mkdir_fails = (\<lambda>p. False), write_fails = (\<lambda>p. False)\<rparr>
              [\<lparr>Title = ''Notes'', IsDaily = False, PageRawChildren = []\<rparr>,
               \<lparr>Title = ''February 30th, 2024'', IsDaily = False, PageRawChildren = []\<rparr>]
              ''out''
            = Some (Some (Errorf ''pass1'' (Errorf ''parse page date'' e)),
                    [''Pass 1: scan all pages''], []))"
  using invalid_daily_title_aborts_in_pass1
    [of "\<lparr>Title = ''February 30th, 2024'', IsDaily = False, PageRawChildren = []\<rparr>"
        "[\<lparr>Title = ''Notes'', IsDaily = False, PageRawChildren = []\<rparr>,
          \<lparr>Title = ''February 30th, 2024'', IsDaily = False, PageRawChildren = []\<rparr>]"
        "[''February 30th, 2024'', ''February'', ''30'', ''2024'']"
        "ParseError ''February 30 2024'' ''day out of range''"
        3 "\<lparr>mkdir_fails = (\<lambda>p. False), write_fails = (\<lambda>p. False)\<rparr>" "''out''"]
  by (simp add: reDaily_February_30th time_Parse_February_30)

subsection \<open>Anchors and the set of referenced ids (pass2, pass3, expandChildren)\<close>

text \<open>
  What \<open>replaceBlockRefs\<close> returns and records does not depend on the set and the
  output it starts from: the set only grows by the ids resolved, the output by the
  diagnostics printed.
\<close>

lemma scan_patterns_frame:
  "scan_patterns res uidBlock m s R out =
     (case scan_patterns res uidBlock m s {} [] of
        (m', s', A, d) \<Rightarrow> (m', s', R \<union> A, out @ d))"
proof (induction res arbitrary: m s R out)
  case Nil
  then show ?case by simp
next
  case (Cons re res)
  show ?case
  proof (cases "FindStringSubmatchIndex re s")
    case None
    then show ?thesis by simp
  next
    case (Some f)
    obtain head caps mt tail where f: "f = (head, caps, mt, tail)"
      by (cases f) auto
    show ?thesis
    proof (cases "uidBlock (caps ! 1)")
      case None
      have a: "scan_patterns res uidBlock True s R (out @ [diagnostic (caps ! 1)]) =
          (case scan_patterns res uidBlock True s {} [] of
             (m', s', A, d) \<Rightarrow> (m', s', R \<union> A, (out @ [diagnostic (caps ! 1)]) @ d))"
        by (rule Cons.IH)
      have b: "scan_patterns res uidBlock True s {} [diagnostic (caps ! 1)] =
          (case scan_patterns res uidBlock True s {} [] of
             (m', s', A, d) \<Rightarrow> (m', s', {} \<union> A, [diagnostic (caps ! 1)] @ d))"
        by (rule Cons.IH)
      show ?thesis
        using Some f None a b by (simp add: Let_def split: prod.splits)
    next
      case (Some child)
      let ?s' = "head @ replacement child @ tail"
      have a: "scan_patterns res uidBlock True ?s' (insert (caps ! 1) R) out =
          (case scan_patterns res uidBlock True ?s' {} [] of
             (m', s', A, d) \<Rightarrow> (m', s', insert (caps ! 1) R \<union> A, out @ d))"
        by (rule Cons.IH)
      have b: "scan_patterns res uidBlock True ?s' {caps ! 1} [] =
          (case scan_patterns res uidBlock True ?s' {} [] of
             (m', s', A, d) \<Rightarrow> (m', s', {caps ! 1} \<union> A, [] @ d))"
        by (rule Cons.IH)
      show ?thesis
        using \<open>FindStringSubmatchIndex re s = Some f\<close> f Some a b
        by (simp add: Let_def split: prod.splits)
    qed
  qed
qed

lemma replace_loop_frame:
  "replace_loop n uidBlock s R out =
     map_option (\<lambda>(s', A, d). (s', R \<union> A, out @ d)) (replace_loop n uidBlock s {} [])"
proof (induction n arbitrary: s R out)
  case 0
  then show ?case by simp
next
  case (Suc n)
  obtain m' s' A d where sc: "scan_patterns regexList uidBlock False s {} [] = (m', s', A, d)"
    by (cases "scan_patterns regexList uidBlock False s {} []") auto
  have sc': "scan_patterns regexList uidBlock False s R out = (m', s', R \<union> A, out @ d)"
    using scan_patterns_frame [of regexList uidBlock False s R out] sc by simp
  show ?case
  proof (cases m')
    case False
    with sc sc' show ?thesis by simp
  next
    case True
    have a: "replace_loop n uidBlock s' (R \<union> A) (out @ d) =
        map_option (\<lambda>(s'', B, e). (s'', (R \<union> A) \<union> B, (out @ d) @ e)) (replace_loop n uidBlock s' {} [])"
      by (rule Suc.IH)
    have b: "replace_loop n uidBlock s' A d =
        map_option (\<lambda>(s'', B, e). (s'', A \<union> B, d @ e)) (replace_loop n uidBlock s' {} [])"
      by (rule Suc.IH)
    show ?thesis
      using True sc sc' a b
      by (cases "replace_loop n uidBlock s' {} []") (auto simp: Un_assoc)
  qed
qed

lemma replaceBlockRefs_frame:
  "replaceBlockRefs n s uidBlock R out =
     map_option (\<lambda>(r, A, d). (r, R \<union> A, out @ d)) (replaceBlockRefs n s uidBlock {} [])"
  unfolding replaceBlockRefs_def
  using replace_loop_frame [of n uidBlock s R out]
  by (cases "replace_loop n uidBlock s {} []") (auto split: option.splits)

lemma replaceBlockRefs_Inr:
  assumes "replaceBlockRefs n s uidBlock R out = Some (Inr updated, R1, out1)"
  shows "updated = resolved_text n uidBlock s" and "R1 = R \<union> resolved_ids n uidBlock s"
    and "\<exists>d. replaceBlockRefs n s uidBlock S out3
               = Some (Inr (resolved_text n uidBlock s), S \<union> resolved_ids n uidBlock s, out3 @ d)"
proof -
  from assms replaceBlockRefs_frame [of n s uidBlock R out]
  obtain A d where base: "replaceBlockRefs n s uidBlock {} [] = Some (Inr updated, A, d)"
    and R1: "R1 = R \<union> A"
    by (cases "replaceBlockRefs n s uidBlock {} []") auto
  show "updated = resolved_text n uidBlock s"
    using base by (simp add: resolved_text_def)
  show "R1 = R \<union> resolved_ids n uidBlock s"
    using base R1 by (simp add: resolved_ids_def)
  show "\<exists>d. replaceBlockRefs n s uidBlock S out3
               = Some (Inr (resolved_text n uidBlock s), S \<union> resolved_ids n uidBlock s, out3 @ d)"
    using base replaceBlockRefs_frame [of n s uidBlock S out3]
    by (simp add: resolved_text_def resolved_ids_def)
qed

lemma expandChildren_Cons_Inr:
  assumes "expandChildren n (Child uid str kids heading pg # rest) uidBlock R out level
             = Some (Inr lines, R', out')"
  shows "\<exists>updated R1 out1 expanded R2 out2 following.
           replaceBlockRefs n str uidBlock R out = Some (Inr updated, R1, out1)
         \<and> expandChildren n kids uidBlock R1 out1 (level + 1) = Some (Inr expanded, R2, out2)
         \<and> expandChildren n rest uidBlock R2 out2 level = Some (Inr following, R', out')
         \<and> lines = render_line (line_prefix level (Child uid str kids heading pg)) updated
                     (line_postfix R (Child uid str kids heading pg)) # expanded @ following"
  using assms by (auto simp: Let_def split: option.splits sum.splits prod.splits)

lemma expandChildren_ids:
  "expandChildren n cs uidBlock R out level = Some (Inr lines, R', out')
     \<Longrightarrow> R' = R \<union> (\<Union>c\<in>set (all_blocks cs). resolved_ids n uidBlock (String c))"
proof (induction cs arbitrary: R out level lines R' out' rule: all_blocks.induct)
  case 1
  then show ?case by simp
next
  case (2 uid str kids heading pg rest)
  from expandChildren_Cons_Inr [OF "2.prems"]
  obtain updated R1 out1 expanded R2 out2 following where
    r: "replaceBlockRefs n str uidBlock R out = Some (Inr updated, R1, out1)"
    and k: "expandChildren n kids uidBlock R1 out1 (level + 1) = Some (Inr expanded, R2, out2)"
    and f: "expandChildren n rest uidBlock R2 out2 level = Some (Inr following, R', out')"
    by blast
  have "R1 = R \<union> resolved_ids n uidBlock str"
    by (rule replaceBlockRefs_Inr(2) [OF r])
  moreover have "R2 = R1 \<union> (\<Union>c\<in>set (all_blocks kids). resolved_ids n uidBlock (String c))"
    by (rule "2.IH"(1) [OF k])
  moreover have "R' = R2 \<union> (\<Union>c\<in>set (all_blocks rest). resolved_ids n uidBlock (String c))"
    by (rule "2.IH"(2) [OF f])
  ultimately show ?case by auto
qed

lemma expandChildren_closed:
  "expandChildren n cs uidBlock R out level = Some (Inr lines, R', out')
     \<Longrightarrow> (\<Union>c\<in>set (all_blocks cs). resolved_ids n uidBlock (String c)) \<subseteq> S
     \<Longrightarrow> \<exists>out''. expandChildren n cs uidBlock S out3 level
           = Some (Inr (anchored_lines (resolved_text n uidBlock) S level cs), S, out'')"
proof (induction cs arbitrary: R out level lines R' out' out3 rule: all_blocks.induct)
  case 1
  then show ?case by simp
next
  case (2 uid str kids heading pg rest)
  from expandChildren_Cons_Inr [OF "2.prems"(1)]
  obtain updated R1 out1 expanded R2 out2 following where
    r: "replaceBlockRefs n str uidBlock R out = Some (Inr updated, R1, out1)"
    and k: "expandChildren n kids uidBlock R1 out1 (level + 1) = Some (Inr expanded, R2, out2)"
    and f: "expandChildren n rest uidBlock R2 out2 level = Some (Inr following, R', out')"
    by blast
  from "2.prems"(2) have sub_str: "resolved_ids n uidBlock str \<subseteq> S"
    and sub_kids: "(\<Union>c\<in>set (all_blocks kids). resolved_ids n uidBlock (String c)) \<subseteq> S"
    and sub_rest: "(\<Union>c\<in>set (all_blocks rest). resolved_ids n uidBlock (String c)) \<subseteq> S"
    by auto
  from replaceBlockRefs_Inr(3) [OF r, of S out3] sub_str
  obtain d where r': "replaceBlockRefs n str uidBlock S out3
                        = Some (Inr (resolved_text n uidBlock str), S, out3 @ d)"
    by (auto simp: Un_absorb2)
  from "2.IH"(1) [OF k sub_kids, of "out3 @ d"]
  obtain o1 where k': "expandChildren n kids uidBlock S (out3 @ d) (level + 1)
      = Some (Inr (anchored_lines (resolved_text n uidBlock) S (level + 1) kids), S, o1)"
    by blast
  from "2.IH"(2) [OF f sub_rest, of o1]
  obtain o2 where f': "expandChildren n rest uidBlock S o1 level
      = Some (Inr (anchored_lines (resolved_text n uidBlock) S level rest), S, o2)"
    by blast
  show ?case
    using r' k' f' by (simp add: Let_def line_postfix_def)
qed

lemma pass2_loop_ids:
  "pass2_loop n pages uidBlock R out = Some (None, R2, out2)
     \<Longrightarrow> R2 = R \<union> (\<Union>p\<in>set pages. \<Union>c\<in>set (all_blocks (PageRawChildren p)).
                       resolved_ids n uidBlock (String c))
       \<and> (\<forall>p\<in>set pages. \<exists>R0 out0 lines R1 out1.
             expandChildren n (PageRawChildren p) uidBlock R0 out0 0 = Some (Inr lines, R1, out1))"
proof (induction pages arbitrary: R out)
  case Nil
  then show ?case by simp
next
  case (Cons page pages)
  from Cons.prems obtain lines R1 out1 where
    e: "expandChildren n (PageRawChildren page) uidBlock R out 0 = Some (Inr lines, R1, out1)"
    and l: "pass2_loop n pages uidBlock R1 out1 = Some (None, R2, out2)"
    by (auto split: option.splits sum.splits prod.splits)
  from expandChildren_ids [OF e]
  have R1: "R1 = R \<union> (\<Union>c\<in>set (all_blocks (PageRawChildren page)). resolved_ids n uidBlock (String c))" .
  have here: "\<exists>R0 out0 lines R1 out1.
      expandChildren n (PageRawChildren page) uidBlock R0 out0 0 = Some (Inr lines, R1, out1)"
    using e by blast
  from Cons.IH [OF l] have
    R2: "R2 = R1 \<union> (\<Union>p\<in>set pages. \<Union>c\<in>set (all_blocks (PageRawChildren p)).
                       resolved_ids n uidBlock (String c))"
    and others: "\<forall>p\<in>set pages. \<exists>R0 out0 lines R1 out1.
             expandChildren n (PageRawChildren p) uidBlock R0 out0 0 = Some (Inr lines, R1, out1)"
    by blast+
  have "R2 = R \<union> (\<Union>p\<in>set (page # pages). \<Union>c\<in>set (all_blocks (PageRawChildren p)).
                       resolved_ids n uidBlock (String c))"
    using R1 R2 by auto
  moreover have "\<forall>p\<in>set (page # pages). \<exists>R0 out0 lines R1 out1.
             expandChildren n (PageRawChildren p) uidBlock R0 out0 0 = Some (Inr lines, R1, out1)"
    using here others by simp
  ultimately show ?case by blast
qed

lemma pass3_closed:
  assumes "\<And>p out3. p \<in> set ps \<Longrightarrow>
             \<exists>out4. expandChildren n (PageRawChildren p) uidBlock R2 out3 0 = Some (Inr (L p), R2, out4)"
  shows "\<exists>err out4 fs'.
           pass3 n env ps uidBlock R2 outDir out3 fs = Some (err, R2, out4, fs')
         \<and> set fs' \<subseteq> set fs \<union> (\<Union>p\<in>set ps. {MkdirAll (Dir (page_dest outDir p)),
                                               WriteFile (page_dest outDir p) (Join_lines (L p))})"
  using assms
proof (induction ps arbitrary: out3 fs)
  case Nil
  then show ?case by simp
next
  case (Cons page ps)
  have rest: "\<And>out3 fs. \<exists>err out4 fs'.
           pass3 n env ps uidBlock R2 outDir out3 fs = Some (err, R2, out4, fs')
         \<and> set fs' \<subseteq> set fs \<union> (\<Union>p\<in>set ps. {MkdirAll (Dir (page_dest outDir p)),
                                               WriteFile (page_dest outDir p) (Join_lines (L p))})"
    using Cons.IH Cons.prems by simp
  show ?case
  proof (cases "Title page = []")
    case True
    with rest [of out3 fs] show ?thesis by auto
  next
    case False
    note titled = this
    show ?thesis
    proof (cases "mkdir_fails env (Dir (page_dest outDir page))")
      case True
      with titled show ?thesis by (auto simp: Let_def)
    next
      case False
      note mk = this
      from Cons.prems [of page out3]
      obtain o4 where e: "expandChildren n (PageRawChildren page) uidBlock R2 out3 0
                           = Some (Inr (L page), R2, o4)"
        by auto
      show ?thesis
      proof (cases "write_fails env (page_dest outDir page)")
        case True
        with titled mk e show ?thesis by (auto simp: Let_def)
      next
        case False
        let ?fs = "fs @ [MkdirAll (Dir (page_dest outDir page)),
                         WriteFile (page_dest outDir page) (Join_lines (L page))]"
        from rest [of o4 ?fs]
        obtain err out4 fs' where
          r: "pass3 n env ps uidBlock R2 outDir o4 ?fs = Some (err, R2, out4, fs')"
          and sub: "set fs' \<subseteq> set ?fs \<union> (\<Union>p\<in>set ps. {MkdirAll (Dir (page_dest outDir p)),
                                               WriteFile (page_dest outDir p) (Join_lines (L p))})"
          by blast
        have "pass3 n env (page # ps) uidBlock R2 outDir out3 fs = Some (err, R2, out4, fs')"
          using titled mk e False r by (simp add: Let_def)
        moreover have "set fs' \<subseteq> set fs \<union> (\<Union>p\<in>set (page # ps).
                          {MkdirAll (Dir (page_dest outDir p)),
                           WriteFile (page_dest outDir p) (Join_lines (L p))})"
          using sub by auto
        ultimately show ?thesis by blast
      qed
    qed
  qed
qed

text \<open>
  C6. Let Pass 2 complete over the whole corpus with the set \<open>R2\<close>. Then \<open>R2\<close> is
  exactly the set of ids resolved in the text of some block of some page; rendering any
  page again from \<open>R2\<close>, as Pass 3 does, returns the lines of \<open>anchored_lines\<close>, in
  which a block's line carries the one suffix \<open> ^<id>\<close> if and only if its id is in
  \<open>R2\<close>, and leaves the set as it is; and Pass 3 itself returns, with the set unchanged,
  having written for a page nothing but this rendering.
\<close>

theorem anchors_follow_referenced_set:
  assumes "pass2 n pages uidBlock {} out = Some (None, R2, out2)"
  shows "R2 = (\<Union>p\<in>set pages. \<Union>c\<in>set (all_blocks (PageRawChildren p)).
                 resolved_ids n uidBlock (String c))
       \<and> (\<forall>page\<in>set pages. \<forall>out3. \<exists>out4.
            expandChildren n (PageRawChildren page) uidBlock R2 out3 0
              = Some (Inr (anchored_lines (resolved_text n uidBlock) R2 0 (PageRawChildren page)),
                      R2, out4))
       \<and> (\<forall>env outDir out3 fs. \<exists>err out4 fs'.
            pass3 n env pages uidBlock R2 outDir out3 fs = Some (err, R2, out4, fs')
          \<and> set fs' \<subseteq> set fs \<union>
                (\<Union>p\<in>set pages.
                   {MkdirAll (Dir (page_dest outDir p)),
                    WriteFile (page_dest outDir p)
                      (Join_lines (anchored_lines (resolved_text n uidBlock) R2 0
                                     (PageRawChildren p)))}))"
proof -
  from assms have l: "pass2_loop n pages uidBlock {} (out @ [''Pass 2: track blockrefs''])
                        = Some (None, R2, out2)"
    by (simp add: pass2_def)
  from pass2_loop_ids [OF l] have
    R2: "R2 = (\<Union>p\<in>set pages. \<Union>c\<in>set (all_blocks (PageRawChildren p)).
                 resolved_ids n uidBlock (String c))"
    and ran: "\<forall>p\<in>set pages. \<exists>R0 out0 lines R1 out1.
             expandChildren n (PageRawChildren p) uidBlock R0 out0 0 = Some (Inr lines, R1, out1)"
    by auto
  have page: "\<exists>out4. expandChildren n (PageRawChildren p) uidBlock R2 out3 0
              = Some (Inr (anchored_lines (resolved_text n uidBlock) R2 0 (PageRawChildren p)),
                      R2, out4)"
    if "p \<in> set pages" for p out3
  proof -
    from ran that obtain R0 out0 lines R1 out1 where
      e: "expandChildren n (PageRawChildren p) uidBlock R0 out0 0 = Some (Inr lines, R1, out1)"
      by blast
    have "(\<Union>c\<in>set (all_blocks (PageRawChildren p)). resolved_ids n uidBlock (String c)) \<subseteq> R2"
      using R2 that by blast
    from expandChildren_closed [OF e this] show ?thesis .
  qed
  have "\<exists>err out4 fs'.
            pass3 n env pages uidBlock R2 outDir out3 fs = Some (err, R2, out4, fs')
          \<and> set fs' \<subseteq> set fs \<union>
                (\<Union>p\<in>set pages.
                   {MkdirAll (Dir (page_dest outDir p)),
                    WriteFile (page_dest outDir p)
                      (Join_lines (anchored_lines (resolved_text n uidBlock) R2 0
                                     (PageRawChildren p)))})"
    for env outDir out3 fs
    by (rule pass3_closed) (rule page)
  with R2 page show ?thesis by blast
qed

lemma find_mentions_Notes_link:
  "FindStringSubmatchIndex reBlockMentions ''Buy milk [[Notes#^abc123456]]'' = None"
  by code_simp

lemma find_daylink_Notes_link:
  "FindStringSubmatchIndex reDayLink ''Buy milk [[Notes#^abc123456]]'' = None"
  by code_simp

theorem anchors_follow_referenced_set_witness:
  "pass2 1
     [\<lparr>Title = ''Notes'', IsDaily = False,
        PageRawChildren = [Child ''abc123456'' ''Buy milk'' [] 0 \<lparr>Title = ''Notes'', IsDaily = False\<rparr>]\<rparr>,
      \<lparr>Title = ''Inbox'', IsDaily = False,
        PageRawChildren = [Child ''xyz123456'' ''{{embed: ((abc123456))}}'' [] 0
                             \<lparr>Title = ''Inbox'', IsDaily = False\<rparr>]\<rparr>]
     [''abc123456'' \<mapsto> Child ''abc123456'' ''Buy milk'' [] 0 \<lparr>Title = ''Notes'', IsDaily = False\<rparr>,
      ''xyz123456'' \<mapsto> Child ''xyz123456'' ''{{embed: ((abc123456))}}'' [] 0
                          \<lparr>Title = ''Inbox'', IsDaily = False\<rparr>]
     {} []
   = Some (None, {''abc123456''}, [''Pass 2: track blockrefs''])
   \<and> (\<exists>out4.
        expandChildren 1
          [Child ''abc123456'' ''Buy milk'' [] 0 \<lparr>Title = ''Notes'', IsDaily = False\<rparr>]
          [''abc123456'' \<mapsto> Child ''abc123456'' ''Buy milk'' [] 0 \<lparr>Title = ''Notes'', IsDaily = False\<rparr>,
           ''xyz123456'' \<mapsto> Child ''xyz123456'' ''{{embed: ((abc123456))}}'' [] 0
                               \<lparr>Title = ''Inbox'', IsDaily = False\<rparr>]
          {''abc123456''} [] 0
        = Some (Inr [''Buy milk ^abc123456''], {''abc123456''}, out4))"
proof -
  let ?notes = "\<lparr>Title = ''Notes'', IsDaily = False,
        PageRawChildren = [Child ''abc123456'' ''Buy milk'' [] 0 \<lparr>Title = ''Notes'', IsDaily = False\<rparr>]\<rparr>"
  let ?inbox = "\<lparr>Title = ''Inbox'', IsDaily = False,
        PageRawChildren = [Child ''xyz123456'' ''{{embed: ((abc123456))}}'' [] 0
                             \<lparr>Title = ''Inbox'', IsDaily = False\<rparr>]\<rparr>"
  let ?idx = "[''abc123456'' \<mapsto> Child ''abc123456'' ''Buy milk'' [] 0 \<lparr>Title = ''Notes'', IsDaily = False\<rparr>,
      ''xyz123456'' \<mapsto> Child ''xyz123456'' ''{{embed: ((abc123456))}}'' [] 0
                          \<lparr>Title = ''Inbox'', IsDaily = False\<rparr>]"
  have h: "pass2 1 [?notes, ?inbox] ?idx {} [] = Some (None, {''abc123456''}, [''Pass 2: track blockrefs''])"
    by (simp add: pass2_def replaceBlockRefs_def regexList_def replacement_def Let_def
          find_embed_Buy_milk find_daylink_Buy_milk find_embed_embed
          find_mentions_Notes_link find_daylink_Notes_link)
  have a: "anchored_lines (resolved_text 1 ?idx) {''abc123456''} 0 (PageRawChildren ?notes)
             = [''Buy milk ^abc123456'']"
    by (simp add: resolved_text_def replaceBlockRefs_def regexList_def line_prefix_def
          render_line_def Let_def find_embed_Buy_milk find_daylink_Buy_milk)
  from anchors_follow_referenced_set [OF h]
  have "\<forall>page\<in>set [?notes, ?inbox]. \<forall>out3. \<exists>out4.
            expandChildren 1 (PageRawChildren page) ?idx {''abc123456''} out3 0
              = Some (Inr (anchored_lines (resolved_text 1 ?idx) {''abc123456''} 0 (PageRawChildren page)),
                      {''abc123456''}, out4)"
    by blast
  then have "\<exists>out4. expandChildren 1 (PageRawChildren ?notes) ?idx {''abc123456''} [] 0
              = Some (Inr (anchored_lines (resolved_text 1 ?idx) {''abc123456''} 0 (PageRawChildren ?notes)),
                      {''abc123456''}, out4)"
    by simp
  then have "\<exists>out4. expandChildren 1 (PageRawChildren ?notes) ?idx {''abc123456''} [] 0
              = Some (Inr [''Buy milk ^abc123456''], {''abc123456''}, out4)"
    by (simp only: a)
  then show ?thesis
    using h by simp
qed

subsection \<open>Indentation, heading marks and bullet by depth (expandChildren)\<close>

lemma line_prefix_eq:
  "line_prefix level child =
     (if Heading child > 0 then replicate (nat (Heading child)) (CHR ''#'') @ '' '' else [])
     @ replicate (4 * level) (CHR '' '')
     @ (if RawChildren child \<noteq> [] \<and> level > 0 then ''* '' else [])"
  by (simp add: line_prefix_def Let_def)

lemma newline_notin_line_prefix: "CHR 0x0A \<notin> set (line_prefix level child)"
  by (simp add: line_prefix_eq)

lemma ReplaceAll_newline_append:
  "ReplaceAll_newline (xs @ ys) new = ReplaceAll_newline xs new @ ReplaceAll_newline ys new"
  by (simp add: ReplaceAll_newline_def)

lemma ReplaceAll_newline_none: "CHR 0x0A \<notin> set xs \<Longrightarrow> ReplaceAll_newline xs new = xs"
  by (induction xs) (auto simp: ReplaceAll_newline_def)

lemma render_line_begins:
  "CHR 0x0A \<notin> set prefix
     \<Longrightarrow> take (length prefix) (render_line prefix updated postfix) = prefix"
  by (simp add: render_line_def Let_def ReplaceAll_newline_append ReplaceAll_newline_none)

text \<open>
  C7. Take any forest of blocks that \<open>expandChildren\<close> renders, starting at nesting level
  \<open>level\<close> (0 for the children of a page). The lines it returns are the lines of the
  blocks of the forest, one line for each block, in document order, and the line of
  every block at depth \<open>depth\<close> begins with this prefix: \<open>Heading\<close> marks \<open>#\<close> and a
  space when the heading level is positive, then \<open>4 * depth\<close> spaces (none at depth 0),
  then the bullet \<open>* \<close> exactly when the block has a child and the depth is positive.
  The line is built from that prefix, the resolved text of the block and the anchor or
  no anchor. So a block at depth 2 with one child begins with 8 spaces and \<open>* \<close>, and a
  block at depth 0 has no bullet, whatever its children.
\<close>

theorem rendered_lines_by_depth:
  assumes "expandChildren n cs uidBlock referencedUID out level
             = Some (Inr lines, referencedUID', out')"
  shows "list_all2
           (\<lambda>(depth, block) line.
              let prefix =
                    (if Heading block > 0
                     then replicate (nat (Heading block)) (CHR ''#'') @ '' '' else [])
                    @ replicate (4 * depth) (CHR '' '')
                    @ (if RawChildren block \<noteq> [] \<and> depth > 0 then ''* '' else [])
              in \<exists>anchor. anchor \<in> {[], '' ^'' @ UID block}
                   \<and> line = render_line prefix (resolved_text n uidBlock (String block)) anchor
                   \<and> take (length prefix) line = prefix)
           (blocks_at level cs) lines"
  using assms
proof (induction cs arbitrary: level lines referencedUID out referencedUID' out'
        rule: all_blocks.induct)
  case 1
  then show ?case by simp
next
  case (2 uid str kids heading pg rest)
  let ?child = "Child uid str kids heading pg"
  let ?P = "\<lambda>(depth, block) line.
              let prefix =
                    (if Heading block > 0
                     then replicate (nat (Heading block)) (CHR ''#'') @ '' '' else [])
                    @ replicate (4 * depth) (CHR '' '')
                    @ (if RawChildren block \<noteq> [] \<and> depth > 0 then ''* '' else [])
              in \<exists>anchor. anchor \<in> {[], '' ^'' @ UID block}
                   \<and> line = render_line prefix (resolved_text n uidBlock (String block)) anchor
                   \<and> take (length prefix) line = prefix"
  from expandChildren_Cons_Inr [OF "2.prems"]
  obtain updated R1 out1 expanded R2 out2 following where
    r: "replaceBlockRefs n str uidBlock referencedUID out = Some (Inr updated, R1, out1)"
    and k: "expandChildren n kids uidBlock R1 out1 (level + 1) = Some (Inr expanded, R2, out2)"
    and f: "expandChildren n rest uidBlock R2 out2 level = Some (Inr following, referencedUID', out')"
    and l: "lines = render_line (line_prefix level ?child) updated
                      (line_postfix referencedUID ?child) # expanded @ following"
    by blast
  have u: "updated = resolved_text n uidBlock str"
    by (rule replaceBlockRefs_Inr(1) [OF r])
  have head: "?P (level, ?child)
                (render_line (line_prefix level ?child) updated (line_postfix referencedUID ?child))"
    using render_line_begins [OF newline_notin_line_prefix, of level ?child updated
            "line_postfix referencedUID ?child"]
    by (auto simp: Let_def u line_prefix_eq line_postfix_def)
  have kids: "list_all2 ?P (blocks_at (level + 1) kids) expanded"
    by (rule "2.IH"(1) [OF k])
  have rest: "list_all2 ?P (blocks_at level rest) following"
    by (rule "2.IH"(2) [OF f])
  show ?case
    unfolding l blocks_at.simps
    using head kids rest by (intro list_all2_appendI list.rel_intros) 
qed

lemma find_embed_x: "FindStringSubmatchIndex reBlockEmbed ''x'' = None"
  by code_simp

lemma find_daylink_x: "FindStringSubmatchIndex reDayLink ''x'' = None"
  by code_simp

lemma find_embed_y: "FindStringSubmatchIndex reBlockEmbed ''y'' = None"
  by code_simp

lemma find_daylink_y: "FindStringSubmatchIndex reDayLink ''y'' = None"
  by code_simp

text \<open>
  A page with two top-level blocks: the first, a heading of level 2, holds a chain of
  three nested blocks; the second holds one block.
\<close>

lemma expandChildren_page_example:
  "expandChildren 1
     [Child ''aaaaaaaaa'' ''x''
        [Child ''bbbbbbbbb'' ''y''
           [Child ''ccccccccc'' ''x'' [Child ''ddddddddd'' ''y'' [] 0 \<lparr>Title = ''P'', IsDaily = False\<rparr>] 0
              \<lparr>Title = ''P'', IsDaily = False\<rparr>] 0
           \<lparr>Title = ''P'', IsDaily = False\<rparr>] 2
        \<lparr>Title = ''P'', IsDaily = False\<rparr>,
      Child ''eeeeeeeee'' ''x'' [Child ''fffffffff'' ''y'' [] 0 \<lparr>Title = ''P'', IsDaily = False\<rparr>] 0
        \<lparr>Title = ''P'', IsDaily = False\<rparr>]
     Map.empty {} [] 0
   = Some (Inr [''## x'', ''    * y'', ''        * x'', ''            y'', ''x'', ''    y''], {}, [])"
  by (simp add: replaceBlockRefs_def regexList_def line_prefix_def line_postfix_def
        render_line_def Let_def find_embed_x find_daylink_x find_embed_y find_daylink_y
        numeral_eq_Suc)

theorem rendered_lines_by_depth_witness:
  "expandChildren 1
     [Child ''aaaaaaaaa'' ''x''
        [Child ''bbbbbbbbb'' ''y''
           [Child ''ccccccccc'' ''x'' [Child ''ddddddddd'' ''y'' [] 0 \<lparr>Title = ''P'', IsDaily = False\<rparr>] 0
              \<lparr>Title = ''P'', IsDaily = False\<rparr>] 0
           \<lparr>Title = ''P'', IsDaily = False\<rparr>] 2
        \<lparr>Title = ''P'', IsDaily = False\<rparr>,
      Child ''eeeeeeeee'' ''x'' [Child ''fffffffff'' ''y'' [] 0 \<lparr>Title = ''P'', IsDaily = False\<rparr>] 0
        \<lparr>Title = ''P'', IsDaily = False\<rparr>]
     Map.empty {} [] 0
   = Some (Inr [''## x'', ''    * y'', ''        * x'', ''            y'', ''x'', ''    y''], {}, [])
   \<and> list_all2
       (\<lambda>(depth, block) line.
          let prefix =
                (if Heading block > 0
                 then replicate (nat (Heading block)) (CHR ''#'') @ '' '' else [])
                @ replicate (4 * depth) (CHR '' '')
                @ (if RawChildren block \<noteq> [] \<and> depth > 0 then ''* '' else [])
          in \<exists>anchor. anchor \<in> {[], '' ^'' @ UID block}
               \<and> line = render_line prefix (resolved_text 1 Map.empty (String block)) anchor
               \<and> take (length prefix) line = prefix)
       (blocks_at 0
          [Child ''aaaaaaaaa'' ''x''
             [Child ''bbbbbbbbb'' ''y''
                [Child ''ccccccccc'' ''x'' [Child ''ddddddddd'' ''y'' [] 0 \<lparr>Title = ''P'', IsDaily = False\<rparr>] 0
                   \<lparr>Title = ''P'', IsDaily = False\<rparr>] 0
                \<lparr>Title = ''P'', IsDaily = False\<rparr>] 2
             \<lparr>Title = ''P'', IsDaily = False\<rparr>,
           Child ''eeeeeeeee'' ''x'' [Child ''fffffffff'' ''y'' [] 0 \<lparr>Title = ''P'', IsDaily = False\<rparr>] 0
             \<lparr>Title = ''P'', IsDaily = False\<rparr>])
       [''## x'', ''    * y'', ''        * x'', ''            y'', ''x'', ''    y'']"
  using rendered_lines_by_depth [OF expandChildren_page_example] expandChildren_page_example
  by (rule_tac conjI)

subsection \<open>Daily date links in a block text (replaceDayLinks, reDayLink)\<close>

text \<open>
  What the combinators match, as sets: the order of the alternatives does not matter
  where at most one of them can succeed.
\<close>

lemma in_re_lit: "(c, m, r) \<in> set (re_lit w s) \<longleftrightarrow> c = [] \<and> m = w \<and> s = w @ r"
  by (auto simp: re_lit_def) (metis append_take_drop_id)

lemma in_re_cls: "(c, m, r) \<in> set (re_cls P s) \<longleftrightarrow> (\<exists>x. P x \<and> c = [] \<and> m = [x] \<and> s = x # r)"
  by (auto simp: re_cls_def split: list.splits)

lemma in_re_eps: "(c, m, r) \<in> set (re_eps s) \<longleftrightarrow> c = [] \<and> m = [] \<and> r = s"
  by (auto simp: re_eps_def)

lemma in_re_eol: "(c, m, r) \<in> set (re_eol s) \<longleftrightarrow> c = [] \<and> m = [] \<and> r = [] \<and> s = []"
  by (auto simp: re_eol_def)

lemma in_re_seq:
  "(c, m, r) \<in> set (re_seq a b s) \<longleftrightarrow>
     (\<exists>c1 m1 r1 c2 m2. (c1, m1, r1) \<in> set (a s) \<and> (c2, m2, r) \<in> set (b r1)
        \<and> c = c1 @ c2 \<and> m = m1 @ m2)"
proof
  assume "(c, m, r) \<in> set (re_seq a b s)"
  then have "\<exists>x\<in>set (a s). (c, m, r) \<in> set (case x of (c1, m1, r1) \<Rightarrow>
                  map (\<lambda>(c2, m2, r2). (c1 @ c2, m1 @ m2, r2)) (b r1))"
    by (simp add: re_seq_def)
  then show
    "\<exists>c1 m1 r1 c2 m2. (c1, m1, r1) \<in> set (a s) \<and> (c2, m2, r) \<in> set (b r1)
        \<and> c = c1 @ c2 \<and> m = m1 @ m2"
    by (clarsimp simp: image_iff) blast
next
  assume "\<exists>c1 m1 r1 c2 m2. (c1, m1, r1) \<in> set (a s) \<and> (c2, m2, r) \<in> set (b r1)
        \<and> c = c1 @ c2 \<and> m = m1 @ m2"
  then obtain c1 m1 r1 c2 m2 where x: "(c1, m1, r1) \<in> set (a s)"
    and y: "(c2, m2, r) \<in> set (b r1)" and e: "c = c1 @ c2" "m = m1 @ m2"
    by blast
  from y have "(c1 @ c2, m1 @ m2, r) \<in> set (map (\<lambda>(c2, m2, r2). (c1 @ c2, m1 @ m2, r2)) (b r1))"
    by force
  with x e show "(c, m, r) \<in> set (re_seq a b s)"
    unfolding re_seq_def by force
qed

lemma in_re_grp:
  "(c, m, r) \<in> set (re_grp a s) \<longleftrightarrow> (\<exists>c'. (c', m, r) \<in> set (a s) \<and> c = c' @ [m])"
  by (force simp: re_grp_def)

lemma in_re_alts_lit:
  "(c, m, r) \<in> set (re_alts (map re_lit ws) s) \<longleftrightarrow> c = [] \<and> m \<in> set ws \<and> s = m @ r"
  by (auto simp: re_alts_def in_re_lit)

lemma in_re_plus_Cons:
  "(c, m, r) \<in> set (re_plus P (x # xs)) \<longleftrightarrow>
     P x \<and> ((\<exists>m'. (c, m', r) \<in> set (re_plus P xs) \<and> m = x # m') \<or> (c = [] \<and> m = [x] \<and> r = xs))"
  by (force simp: image_iff)

lemma in_re_plus:
  "(c, m, r) \<in> set (re_plus P s) \<longleftrightarrow> c = [] \<and> m \<noteq> [] \<and> list_all P m \<and> s = m @ r"
proof (induction s arbitrary: m)
  case Nil
  then show ?case by simp
next
  case (Cons x xs)
  show ?case
  proof (cases m)
    case Nil
    then show ?thesis by (simp add: in_re_plus_Cons del: re_plus.simps)
  next
    case (Cons y ys)
    show ?thesis
    proof (cases ys)
      case Nil
      with Cons show ?thesis
        by (auto simp: in_re_plus_Cons Cons.IH simp del: re_plus.simps)
    next
      case (Cons z zs)
      with \<open>m = y # ys\<close> show ?thesis
        by (auto simp: in_re_plus_Cons Cons.IH simp del: re_plus.simps)
    qed
  qed
qed

lemma in_re_rep_cls:
  "(c, m, r) \<in> set (re_rep n (re_cls P) s) \<longleftrightarrow> c = [] \<and> length m = n \<and> list_all P m \<and> s = m @ r"
proof (induction n arbitrary: c m s)
  case 0
  then show ?case by (auto simp: in_re_eps)
next
  case (Suc n)
  show ?case
  proof (cases m)
    case Nil
    then show ?thesis by (simp add: in_re_seq in_re_cls Suc.IH)
  next
    case (Cons y ys)
    then show ?thesis
      by (auto simp: in_re_seq in_re_cls Suc.IH)
  qed
qed

lemmas in_re = in_re_seq in_re_grp in_re_lit in_re_plus in_re_rep_cls in_re_eps in_re_eol
  in_re_alts_lit

lemma in_reDayLink:
  "(c, m, r) \<in> set (reDayLink s) \<longleftrightarrow>
     (\<exists>w ll ys. w \<noteq> [] \<and> list_all dayLinkClass w \<and> length ll = 2 \<and> list_all is_lower ll
        \<and> length ys = 4 \<and> list_all is_digit ys
        \<and> s = ''[['' @ w @ ll @ '', '' @ ys @ '']]'' @ r
        \<and> m = ''[['' @ w @ ll @ '', '' @ ys @ '']]''
        \<and> c = [''[['', w @ ll @ '', '' @ ys, '']]''])"
  unfolding reDayLink_def re_seqs_def
  apply (simp add: in_re)
  apply (rule iffI)
   apply (elim exE conjE)
   apply (rule_tac x=m1a in exI, simp)
   apply (rule_tac x=m1b in exI, simp)
  apply (elim exE conjE)
  apply simp
  apply (rule_tac x=w in exI, simp)
  apply (rule_tac x=ll in exI, simp)
  done

lemma reDaily_shape:
  "(c, m, r) \<in> set (reDaily s) \<Longrightarrow>
     \<exists>mon ds ll ys. mon \<in> set longMonthNames \<and> ds \<noteq> [] \<and> list_all is_digit ds
        \<and> length ll = 2 \<and> list_all is_lower ll \<and> length ys = 4 \<and> list_all is_digit ys
        \<and> s = mon @ '' '' @ ds @ ll @ '', '' @ ys
        \<and> m = s \<and> r = [] \<and> c = [mon, ds, ys]"
  unfolding reDaily_def re_seqs_def
  apply (simp add: in_re)
  apply (elim exE conjE)
  apply simp
  apply (rule_tac x=m1 in exI, simp)
  apply (rule_tac x=m1a in exI, simp)
  done

lemma first_occurrence:
  "xs @ c # r1 = ys @ c # r2 \<Longrightarrow> c \<notin> set xs \<Longrightarrow> c \<notin> set ys \<Longrightarrow> xs = ys \<and> r1 = r2"
proof (induction xs arbitrary: ys)
  case Nil
  then show ?case by (cases ys) auto
next
  case (Cons x xs)
  then show ?case by (cases ys) auto
qed

lemma before_occurrence:
  "xs @ r1 = ys @ c # r2 \<Longrightarrow> c \<notin> set xs \<Longrightarrow> \<exists>t. ys = xs @ t"
proof (induction xs arbitrary: ys)
  case Nil
  then show ?case by simp
next
  case (Cons x xs)
  then show ?case by (cases ys) auto
qed

lemma list_all_notin: "list_all P xs \<Longrightarrow> \<not> P c \<Longrightarrow> c \<notin> set xs"
  by (auto simp: list_all_iff)

lemma reDayLink_needs_brackets: "take 2 s \<noteq> ''[['' \<Longrightarrow> reDayLink s = []"
proof (cases "reDayLink s")
  case Nil
  then show ?thesis by simp
next
  case (Cons x xs)
  assume no: "take 2 s \<noteq> ''[[''"
  obtain c m r where "x = (c, m, r)" by (cases x) auto
  with Cons have "(c, m, r) \<in> set (reDayLink s)" by simp
  then obtain t where "s = ''[['' @ t"
    unfolding in_reDayLink by auto
  with no show ?thesis by simp
qed

lemma reDayLink_no_bracket: "s = [] \<or> hd s \<noteq> CHR ''['' \<Longrightarrow> reDayLink s = []"
  by (rule reDayLink_needs_brackets) (cases s, auto)

lemma month_in_class: "mon \<in> set longMonthNames \<Longrightarrow> list_all dayLinkClass mon"
  by (auto simp: longMonthNames_def dayLinkClass_def)

lemma month_no_comma: "mon \<in> set longMonthNames \<Longrightarrow> CHR '','' \<notin> set mon"
  by (auto simp: longMonthNames_def)

lemma digits_in_class: "list_all is_digit ds \<Longrightarrow> list_all dayLinkClass ds"
  by (simp add: list_all_iff dayLinkClass_def)

lemma reDayLink_at_daily_date:
  assumes "(caps, mt, rt) \<in> set (reDaily d)"
  shows "\<exists>xs. reDayLink (''[['' @ d @ '']]'' @ post)
           = ([''[['', d, '']]''], ''[['' @ d @ '']]'', post) # xs"
proof -
  from reDaily_shape [OF assms]
  obtain mon ds ll ys where mon: "mon \<in> set longMonthNames"
    and ds: "ds \<noteq> []" "list_all is_digit ds"
    and ll: "length ll = 2" "list_all is_lower ll"
    and ys: "length ys = 4" "list_all is_digit ys"
    and d: "d = mon @ '' '' @ ds @ ll @ '', '' @ ys"
    by blast
  let ?s = "''[['' @ d @ '']]'' @ post"
  let ?X = "([''[['', d, '']]''], ''[['' @ d @ '']]'', post)"
  have w_class: "list_all dayLinkClass (mon @ '' '' @ ds)"
    using month_in_class [OF mon] digits_in_class [OF ds(2)] by (simp add: dayLinkClass_def)
  have mem: "?X \<in> set (reDayLink ?s)"
    unfolding in_reDayLink
    apply (rule exI [of _ "mon @ '' '' @ ds"])
    apply (rule exI [of _ ll])
    apply (rule exI [of _ ys])
    using w_class ll ys d by simp
  have no_comma_d: "CHR '','' \<notin> set (mon @ '' '' @ ds @ ll)"
    using month_no_comma [OF mon] list_all_notin [OF ds(2), of "CHR '',''"]
      list_all_notin [OF ll(2), of "CHR '',''"]
    by (simp add: is_digit_def is_lower_def)
  have uniq: "x = ?X" if "x \<in> set (reDayLink ?s)" for x
  proof -
    obtain c m r where x: "x = (c, m, r)" by (cases x) auto
    with that have "(c, m, r) \<in> set (reDayLink ?s)" by simp
    then obtain w ll' ys' where w: "list_all dayLinkClass w"
      and ll': "length ll' = 2" "list_all is_lower ll'"
      and ys': "length ys' = 4"
      and s: "?s = ''[['' @ w @ ll' @ '', '' @ ys' @ '']]'' @ r"
      and m: "m = ''[['' @ w @ ll' @ '', '' @ ys' @ '']]''"
      and c: "c = [''[['', w @ ll' @ '', '' @ ys', '']]'']"
      unfolding in_reDayLink by blast
    have no_comma_w: "CHR '','' \<notin> set (w @ ll')"
      using list_all_notin [OF w, of "CHR '',''"] list_all_notin [OF ll'(2), of "CHR '',''"]
      by (simp add: dayLinkClass_def is_digit_def is_lower_def)
    from s d have "(w @ ll') @ CHR '','' # (CHR '' '' # ys' @ '']]'' @ r)
                 = (mon @ '' '' @ ds @ ll) @ CHR '','' # (CHR '' '' # ys @ '']]'' @ post)"
      by simp
    from first_occurrence [OF this no_comma_w no_comma_d]
    have e1: "w @ ll' = mon @ '' '' @ ds @ ll"
      and e2: "CHR '' '' # ys' @ '']]'' @ r = CHR '' '' # ys @ '']]'' @ post"
      by blast+
    from e2 ys ys' have e3: "ys' = ys" and e4: "r = post" by auto
    have "w @ ll' @ '', '' @ ys' = d"
      using e1 e3 d by (metis append.assoc)
    with x m c e4 show ?thesis by simp
  qed
  show ?thesis
  proof (cases "reDayLink ?s")
    case Nil
    with mem show ?thesis by simp
  next
    case (Cons x xs)
    then have "x = ?X" using uniq [of x] by simp
    with Cons show ?thesis by simp
  qed
qed

lemma is_digit_digit_char: "is_digit (digit_char n)"
proof -
  have "''0123456789'' ! (n mod 10) \<in> set ''0123456789''"
    by (rule nth_mem) simp
  then show ?thesis by (simp only: digit_char_def is_digit_def)
qed

lemma digit_not_bracket: "is_digit c \<Longrightarrow> c \<noteq> CHR ''[''"
  by (auto simp: is_digit_def)

lemma Format_obsDaily_shape:
  "\<exists>y z. Format_obsDaily t = y # z \<and> is_digit y \<and> CHR ''['' \<notin> set (Format_obsDaily t)
        \<and> (\<exists>y4 z'. Format_obsDaily t = y4 @ CHR ''-'' # z' \<and> list_all is_digit y4)"
proof -
  obtain year month day where t: "t = (year, month, day)" by (cases t) auto
  have nb: "CHR ''['' \<noteq> digit_char k" for k
    using digit_not_bracket [OF is_digit_digit_char, of k] by simp
  have "Format_obsDaily t = zero_pad4 year @ CHR ''-'' # (zero_pad2 month @ ''-'' @ zero_pad2 day)"
    by (simp add: t Format_obsDaily_def)
  moreover have "list_all is_digit (zero_pad4 year)"
    by (simp add: zero_pad4_def is_digit_digit_char)
  moreover have "CHR ''['' \<notin> set (Format_obsDaily t)"
    by (simp add: t Format_obsDaily_def zero_pad4_def zero_pad2_def nb)
  moreover have "Format_obsDaily t = digit_char (year div 1000) # tl (Format_obsDaily t)"
    by (simp add: t Format_obsDaily_def zero_pad4_def)
  ultimately show ?thesis
    using is_digit_digit_char by blast
qed

lemma reDayLink_after_digits:
  assumes "list_all is_digit y4"
  shows "reDayLink (''[['' @ y4 @ CHR ''-'' # z) = []"
proof (cases "reDayLink (''[['' @ y4 @ CHR ''-'' # z)")
  case Nil
  then show ?thesis .
next
  case (Cons x xs)
  obtain c m r where "x = (c, m, r)" by (cases x) auto
  with Cons have "(c, m, r) \<in> set (reDayLink (''[['' @ y4 @ CHR ''-'' # z))" by simp
  then obtain w ll ys where w: "list_all dayLinkClass w" and ll: "list_all is_lower ll"
    and s: "''[['' @ y4 @ CHR ''-'' # z = ''[['' @ w @ ll @ '', '' @ ys @ '']]'' @ r"
    unfolding in_reDayLink by blast
  have nodash: "CHR ''-'' \<notin> set (w @ ll @ '','')"
    using list_all_notin [OF w, of "CHR ''-''"] list_all_notin [OF ll, of "CHR ''-''"]
    by (simp add: dayLinkClass_def is_digit_def is_lower_def)
  from s have eq: "(w @ ll @ '','') @ ('' '' @ ys @ '']]'' @ r) = y4 @ CHR ''-'' # z"
    by simp
  from before_occurrence [OF eq nodash] obtain t where "y4 = (w @ ll @ '','') @ t" ..
  then have "CHR '','' \<in> set y4" by simp
  with list_all_notin [OF assms, of "CHR '',''"] show ?thesis
    by (simp add: is_digit_def)
qed

lemma no_bracket_no_link:
  assumes "CHR ''['' \<notin> set xs" and "i < length xs"
  shows "reDayLink (drop i xs @ ys) = []"
proof -
  have "drop i xs = xs ! i # drop (Suc i) xs"
    using assms(2) by (simp add: Cons_nth_drop_Suc)
  moreover have "xs ! i \<noteq> CHR ''[''"
    using assms nth_mem by fastforce
  ultimately show ?thesis
    by (intro reDayLink_no_bracket) simp
qed

lemma canonical_link_no_link:
  assumes "i < length (''[['' @ Format_obsDaily t @ '']]'')"
  shows "reDayLink (drop i (''[['' @ Format_obsDaily t @ '']]'') @ ys) = []"
proof -
  from Format_obsDaily_shape [of t]
  obtain y z y4 z' where f: "Format_obsDaily t = y # z" and y: "is_digit y"
    and nb: "CHR ''['' \<notin> set (Format_obsDaily t)"
    and f4: "Format_obsDaily t = y4 @ CHR ''-'' # z'" and y4: "list_all is_digit y4"
    by blast
  have "i = 0 \<or> i = 1 \<or> (\<exists>j. i = Suc (Suc j))"
    by arith
  then consider "i = 0" | "i = 1" | j where "i = Suc (Suc j)"
    by blast
  then show ?thesis
  proof cases
    case 1
    have "reDayLink (''[['' @ y4 @ CHR ''-'' # (z' @ '']]'' @ ys)) = []"
      by (rule reDayLink_after_digits [OF y4])
    with 1 f4 show ?thesis by simp
  next
    case 2
    have "take 2 (CHR ''['' # y # z @ '']]'' @ ys) \<noteq> ''[[''"
      using digit_not_bracket [OF y] by simp
    then have "reDayLink (CHR ''['' # y # z @ '']]'' @ ys) = []"
      by (rule reDayLink_needs_brackets)
    with 2 f show ?thesis by simp
  next
    case (3 j)
    have nb': "CHR ''['' \<notin> set (Format_obsDaily t @ '']]'')"
      using nb by simp
    have "j < length (Format_obsDaily t @ '']]'')"
      using assms 3 by simp
    from no_bracket_no_link [OF nb' this, of ys] 3 show ?thesis by simp
  qed
qed

lemma find_from_hit: "re s = (caps, m, r) # xs \<Longrightarrow> find_from re pre s = Some (pre, caps, m, r)"
  by (subst find_from.simps) simp

lemma find_from_end: "re [] = [] \<Longrightarrow> find_from re pre [] = None"
  by (subst find_from.simps) simp

lemma find_from_skip_here:
  "(\<And>i. i < length T \<Longrightarrow> re (drop i T @ s) = [])
     \<Longrightarrow> find_from re pre (T @ s) = find_from re (pre @ T) s"
proof (induction T arbitrary: pre)
  case Nil
  then show ?case by simp
next
  case (Cons x T)
  have here: "re ((x # T) @ s) = []"
    using Cons.prems [of 0] by simp
  have later: "re (drop i T @ s) = []" if "i < length T" for i
    using Cons.prems [of "Suc i"] that by simp
  have "find_from re pre ((x # T) @ s) = find_from re (pre @ [x]) (T @ s)"
    using here by (subst find_from.simps) simp
  also have "\<dots> = find_from re ((pre @ [x]) @ T) s"
    by (rule Cons.IH) (rule later)
  finally show ?case by simp
qed

lemma daily_link_at_D:
  assumes "daily_link_at s = Some d"
  shows "s = ''[['' @ d @ '']]'' @ drop (length d + 4) s" and "reDaily d \<noteq> []"
proof -
  let ?t = "drop 2 s"
  let ?P = "\<lambda>c. c \<noteq> CHR '']''"
  from assms have d: "d = takeWhile ?P ?t" and open2: "take 2 s = ''[[''"
    and close2: "take 2 (drop (length d + 2) s) = '']]''"
    and m: "FindAllStringSubmatch_anchored reDaily d \<noteq> []"
    by (auto simp: daily_link_at_def Let_def split: if_splits)
  have s: "s = ''[['' @ ?t"
    using open2 append_take_drop_id [of 2 s] by metis
  have t: "?t = d @ dropWhile ?P ?t"
    by (simp add: d)
  have "drop (length d + 2) s = drop (length d) ?t"
    by (simp add: add.commute)
  also have "\<dots> = dropWhile ?P ?t"
    using t by (metis append_eq_conv_conj)
  finally have dw: "dropWhile ?P ?t = drop (length d + 2) s" by simp
  have e: "2 + (length d + 2) = length d + 4"
    by simp
  have dd: "drop 2 (drop (length d + 2) s) = drop (length d + 4) s"
    unfolding drop_drop e ..
  have "drop (length d + 2) s = '']]'' @ drop 2 (drop (length d + 2) s)"
    using close2 append_take_drop_id [of 2 "drop (length d + 2) s"] by metis
  then have "dropWhile ?P ?t = '']]'' @ drop (length d + 4) s"
    unfolding dd dw .
  with s t show "s = ''[['' @ d @ '']]'' @ drop (length d + 4) s"
    by (metis append.assoc)
  from m show "reDaily d \<noteq> []"
    by (auto simp: FindAllStringSubmatch_anchored_def)
qed

lemma reDayLink_at_daily_link:
  assumes "daily_link_at s = Some d"
  shows "\<exists>xs. reDayLink s
           = ([''[['', d, '']]''], ''[['' @ d @ '']]'', drop (length d + 4) s) # xs"
proof -
  from daily_link_at_D [OF assms]
  have s: "s = ''[['' @ d @ '']]'' @ drop (length d + 4) s" and m: "reDaily d \<noteq> []"
    by blast+
  from m obtain caps mt rt where "(caps, mt, rt) \<in> set (reDaily d)"
    by (cases "reDaily d") auto
  from reDayLink_at_daily_date [OF this, of "drop (length d + 4) s"]
  obtain xs where "reDayLink (''[['' @ d @ '']]'' @ drop (length d + 4) s)
      = ([''[['', d, '']]''], ''[['' @ d @ '']]'', drop (length d + 4) s) # xs"
    by blast
  moreover have "reDayLink s = reDayLink (''[['' @ d @ '']]'' @ drop (length d + 4) s)"
    by (rule arg_cong [OF s])
  ultimately show ?thesis by simp
qed

lemma parseRoamDate_daily_pattern:
  assumes "reDaily d \<noteq> []"
  shows "(\<exists>err. parseRoamDate d = Inl err) \<or> (\<exists>t. parseRoamDate d = Inr (Format_obsDaily t, True))"
proof -
  from assms obtain x xs where "reDaily d = x # xs"
    by (cases "reDaily d") auto
  then show ?thesis
    by (cases x)
      (auto simp: parseRoamDate_def FindAllStringSubmatch_anchored_def Let_def split: sum.splits)
qed

lemma prefix_before_suffix:
  assumes "M @ t = U @ y" and "M \<noteq> []" and "last M \<notin> set y"
  shows "\<exists>vs. U = M @ vs"
proof -
  from assms(1) obtain us where "M = U @ us \<and> us @ t = y \<or> M @ us = U \<and> t = us @ y"
    unfolding append_eq_append_conv2 ..
  then show ?thesis
  proof
    assume a: "M = U @ us \<and> us @ t = y"
    show ?thesis
    proof (cases "us = []")
      case True
      with a have "U = M @ []" by simp
      then show ?thesis ..
    next
      case False
      with a have "last M = last us" by simp
      moreover from a False have "last us \<in> set y" by auto
      ultimately show ?thesis using assms(3) by simp
    qed
  next
    assume "M @ us = U \<and> t = us @ y"
    then have "U = M @ us" by simp
    then show ?thesis ..
  qed
qed

lemma reDayLink_match:
  assumes "(c, m, r) \<in> set (reDayLink s)"
  shows "s = m @ r" and "m \<noteq> []" and "last m = CHR '']''" and "CHR ''-'' \<notin> set m"
    and "(c, m, r') \<in> set (reDayLink (m @ r'))"
proof -
  from assms obtain w ll ys where w: "w \<noteq> []" "list_all dayLinkClass w"
    and ll: "length ll = 2" "list_all is_lower ll"
    and ys: "length ys = 4" "list_all is_digit ys"
    and s: "s = ''[['' @ w @ ll @ '', '' @ ys @ '']]'' @ r"
    and m: "m = ''[['' @ w @ ll @ '', '' @ ys @ '']]''"
    and c: "c = [''[['', w @ ll @ '', '' @ ys, '']]'']"
    unfolding in_reDayLink by blast
  show "s = m @ r" by (simp add: s m)
  show "m \<noteq> []" by (simp add: m)
  show "last m = CHR '']''" by (simp add: m)
  show "CHR ''-'' \<notin> set m"
    using list_all_notin [OF w(2), of "CHR ''-''"] list_all_notin [OF ll(2), of "CHR ''-''"]
      list_all_notin [OF ys(2), of "CHR ''-''"]
    by (simp add: m dayLinkClass_def is_digit_def is_lower_def)
  show "(c, m, r') \<in> set (reDayLink (m @ r'))"
    unfolding in_reDayLink
    apply (rule exI [of _ w])
    apply (rule exI [of _ ll])
    apply (rule exI [of _ ys])
    apply (simp add: w ll ys m c)
    done
qed

lemma rewrite_makes_no_match:
  assumes old: "reDayLink (u @ ''[['' @ old) = []"
    and y4: "list_all is_digit y4"
  shows "reDayLink (u @ ''[['' @ y4 @ CHR ''-'' # z) = []"
proof (cases "reDayLink (u @ ''[['' @ y4 @ CHR ''-'' # z)")
  case Nil
  then show ?thesis .
next
  case (Cons x xs)
  obtain c m r where "x = (c, m, r)" by (cases x) auto
  with Cons have mem: "(c, m, r) \<in> set (reDayLink (u @ ''[['' @ y4 @ CHR ''-'' # z))" by simp
  note sh = reDayLink_match [OF mem]
  from sh(1) have eq: "m @ r = (u @ ''[['' @ y4) @ CHR ''-'' # z"
    by (simp only: append_assoc)
  from before_occurrence [OF eq sh(4)] obtain t where "u @ ''[['' @ y4 = m @ t" ..
  then have "m @ t = (u @ ''[['') @ y4"
    by (simp only: append_assoc)
  moreover have "last m \<notin> set y4"
    using list_all_notin [OF y4, of "CHR '']''"] by (simp add: sh(3) is_digit_def)
  ultimately obtain vs where vs: "u @ ''[['' = m @ vs"
    using prefix_before_suffix [OF _ sh(2)] by blast
  have "(c, m, vs @ old) \<in> set (reDayLink (m @ vs @ old))"
    by (rule sh(5))
  moreover have "m @ vs @ old = u @ ''[['' @ old"
    using arg_cong [OF vs, of "\<lambda>x. x @ old"] by (simp only: append_assoc)
  ultimately show ?thesis
    using old by simp
qed

lemma only_daily_links_suffix: "only_daily_links (xs @ ys) \<Longrightarrow> only_daily_links ys"
  by (induction xs) auto

lemma only_daily_links_match:
  assumes "only_daily_links s" and "reDayLink s \<noteq> []"
  shows "\<exists>d. daily_link_at s = Some d"
proof (cases s)
  case Nil
  with assms(2) show ?thesis by (simp add: reDayLink_no_bracket)
next
  case (Cons c cs)
  with assms show ?thesis
    by (cases "reDayLink (c # cs)"; cases "daily_link_at (c # cs)") auto
qed

lemma replaceDayLinks_rewrite:
  "(\<And>i. i < length T \<Longrightarrow> reDayLink (drop i T @ s) = []) \<Longrightarrow> only_daily_links s \<Longrightarrow> length s < n
     \<Longrightarrow> replaceDayLinks n (T @ s)
           = Some (case rewrite_day_links s of Inl err \<Rightarrow> Inl err | Inr t \<Rightarrow> Inr (T @ t))"
proof (induction "length s" arbitrary: s T n rule: less_induct)
  case less
  from less.prems(3) obtain k where n: "n = Suc k" by (cases n) auto
  have skipT: "find_from reDayLink [] (T @ s) = find_from reDayLink T s"
    using find_from_skip_here [of T reDayLink s "[]"] less.prems(1) by simp
  show ?case
  proof (cases s)
    case Nil
    have "find_from reDayLink T s = None"
      unfolding Nil by (rule find_from_end) (simp add: reDayLink_no_bracket)
    then have "FindStringSubmatchIndex reDayLink (T @ s) = None"
      by (simp only: FindStringSubmatchIndex_def skipT)
    then have "replaceDayLinks n (T @ s) = Some (Inr (T @ s))"
      by (simp add: n)
    then show ?thesis by (simp add: Nil)
  next
    case (Cons c cs)
    show ?thesis
    proof (cases "reDayLink s = []")
      case True
      have none: "daily_link_at s = None"
      proof (cases "daily_link_at s")
        case (Some d)
        from reDayLink_at_daily_link [OF Some] True show ?thesis by simp
      qed simp
      have rw: "rewrite_day_links s
          = (case rewrite_day_links cs of Inl err \<Rightarrow> Inl err | Inr t \<Rightarrow> Inr (c # t))"
        using none unfolding Cons by simp
      have nomatch: "reDayLink (drop i (T @ [c]) @ cs) = []" if "i < length (T @ [c])" for i
      proof (cases "i < length T")
        case True
        then have "drop i (T @ [c]) @ cs = drop i T @ s" by (simp add: Cons)
        with less.prems(1) [OF True] show ?thesis by simp
      next
        case False
        with that have "i = length T" by simp
        then have "drop i (T @ [c]) @ cs = s" by (simp add: Cons)
        with \<open>reDayLink s = []\<close> show ?thesis by simp
      qed
      have links: "only_daily_links cs"
        using less.prems(2) unfolding Cons by simp
      have "replaceDayLinks n ((T @ [c]) @ cs)
          = Some (case rewrite_day_links cs of Inl err \<Rightarrow> Inl err | Inr t \<Rightarrow> Inr ((T @ [c]) @ t))"
        using less.prems(3) by (intro less.hyps nomatch links) (simp_all add: Cons)
      moreover have "(T @ [c]) @ cs = T @ s" by (simp add: Cons)
      ultimately show ?thesis
        unfolding rw by (cases "rewrite_day_links cs") simp_all
    next
      case False
      from only_daily_links_match [OF less.prems(2) False]
      obtain d where dl: "daily_link_at s = Some d" ..
      define r where "r = drop (length d + 4) s"
      from daily_link_at_D [OF dl]
      have s: "s = ''[['' @ d @ '']]'' @ r" and m: "reDaily d \<noteq> []"
        unfolding r_def by blast+
      from reDayLink_at_daily_link [OF dl]
      obtain xs where hit: "reDayLink s = ([''[['', d, '']]''], ''[['' @ d @ '']]'', r) # xs"
        unfolding r_def ..
      have fnd: "FindStringSubmatchIndex reDayLink (T @ s)
          = Some (T, [''[['', d, '']]''], ''[['' @ d @ '']]'', r)"
        unfolding FindStringSubmatchIndex_def skipT
        by (rule find_from_hit [where re = reDayLink, OF hit])
      have "length d + 4 = Suc (length d + 3)" by simp
      then have r: "r = drop (length d + 3) cs"
        unfolding r_def Cons by (simp only: drop_Suc_Cons)
      from parseRoamDate_daily_pattern [OF m]
      show ?thesis
      proof
        assume "\<exists>err. parseRoamDate d = Inl err"
        then obtain err where p: "parseRoamDate d = Inl err" ..
        have "replaceDayLinks n (T @ s) = Some (Inl (Errorf (''invalid date '' @ d) err))"
          by (simp add: n fnd p)
        moreover have "rewrite_day_links s = Inl (Errorf (''invalid date '' @ d) err)"
          using dl p unfolding Cons by simp
        ultimately show ?thesis by simp
      next
        assume "\<exists>t. parseRoamDate d = Inr (Format_obsDaily t, True)"
        then obtain t where p: "parseRoamDate d = Inr (Format_obsDaily t, True)" ..
        let ?L = "''[['' @ Format_obsDaily t @ '']]''"
        have step: "replaceDayLinks n (T @ s) = replaceDayLinks k ((T @ ?L) @ r)"
          by (simp add: n fnd p)
        have rw: "rewrite_day_links s
            = (case rewrite_day_links r of Inl err \<Rightarrow> Inl err | Inr t' \<Rightarrow> Inr (?L @ t'))"
          using dl p unfolding Cons r by (simp split: sum.split)
        from Format_obsDaily_shape [of t]
        obtain y4 z where f4: "Format_obsDaily t = y4 @ CHR ''-'' # z" and y4: "list_all is_digit y4"
          by blast
        have nomatch: "reDayLink (drop i (T @ ?L) @ r) = []" if "i < length (T @ ?L)" for i
        proof (cases "i < length T")
          case True
          from less.prems(1) [OF True] have "reDayLink (drop i T @ ''[['' @ (d @ '']]'' @ r)) = []"
            using arg_cong [OF s, of "\<lambda>x. reDayLink (drop i T @ x)"] by simp
          from rewrite_makes_no_match [OF this y4, of "z @ '']]'' @ r"]
          show ?thesis using True by (simp add: f4)
        next
          case False
          with that have j: "i - length T < length ?L" by simp
          from False have "drop i (T @ ?L) @ r = drop (i - length T) ?L @ r" by simp
          with canonical_link_no_link [OF j, of r] show ?thesis by simp
        qed
        have "only_daily_links ((''[['' @ d @ '']]'') @ r)"
          using less.prems(2) arg_cong [OF s, of only_daily_links] by simp
        then have links: "only_daily_links r"
          by (rule only_daily_links_suffix)
        have len: "length r < length s"
          unfolding r Cons by simp
        with less.prems(3) have fuel: "length r < k"
          by (simp add: n)
        have "replaceDayLinks k ((T @ ?L) @ r)
            = Some (case rewrite_day_links r of Inl err \<Rightarrow> Inl err | Inr t' \<Rightarrow> Inr ((T @ ?L) @ t'))"
          by (intro less.hyps nomatch links len fuel)
        then show ?thesis
          unfolding step rw by (cases "rewrite_day_links r") simp_all
      qed
    qed
  qed
qed

text \<open>
  C8 (amended). For every block text in which the date-link pattern \<open>reDayLink\<close> matches
  only where a daily link starts (a double-bracket link whose inner text matches the
  daily date pattern), \<open>replaceDayLinks\<close> returns, within one round for each character
  of the text and one more, what the one-pass rewriting \<open>rewrite_day_links\<close> gives: when
  the date of every daily link is a calendar date, the text with the inner text of every
  daily link rewritten to the canonical date, the brackets and everything else
  unchanged (\<open>[[Notes]] and [[January 5th, 2024]]\<close> becomes
  \<open>[[Notes]] and [[2024-01-05]]\<close>); otherwise the error \<open>invalid date\<close> that names the
  first daily link whose date is not a calendar date, with the parse error of that date.
\<close>

theorem replaceDayLinks_rewrites_daily_links:
  assumes "only_daily_links s"
  shows "replaceDayLinks (Suc (length s) + k) s = Some (rewrite_day_links s)"
proof -
  have "replaceDayLinks (Suc (length s) + k) ([] @ s)
      = Some (case rewrite_day_links s of Inl err \<Rightarrow> Inl err | Inr t \<Rightarrow> Inr ([] @ t))"
    by (rule replaceDayLinks_rewrite) (simp_all add: assms)
  then show ?thesis
    by (cases "rewrite_day_links s") simp_all
qed

lemma only_daily_links_Notes_and_date:
  "only_daily_links ''[[Notes]] and [[January 5th, 2024]]''"
  by code_simp

lemma rewrite_day_links_Notes_and_date:
  "rewrite_day_links ''[[Notes]] and [[January 5th, 2024]]'' = Inr ''[[Notes]] and [[2024-01-05]]''"
  by code_simp

theorem replaceDayLinks_rewrites_daily_links_witness:
  "only_daily_links ''[[Notes]] and [[January 5th, 2024]]''
   \<and> replaceDayLinks 36 ''[[Notes]] and [[January 5th, 2024]]''
       = Some (Inr ''[[Notes]] and [[2024-01-05]]'')"
proof -
  note v = only_daily_links_Notes_and_date
  have len: "Suc (length ''[[Notes]] and [[January 5th, 2024]]'') + 0 = 36"
    by simp
  have "replaceDayLinks (Suc (length ''[[Notes]] and [[January 5th, 2024]]'') + 0)
          ''[[Notes]] and [[January 5th, 2024]]''
        = Some (rewrite_day_links ''[[Notes]] and [[January 5th, 2024]]'')"
    by (rule replaceDayLinks_rewrites_daily_links [OF v])
  then have "replaceDayLinks 36 ''[[Notes]] and [[January 5th, 2024]]''
               = Some (Inr ''[[Notes]] and [[2024-01-05]]'')"
    by (simp only: len rewrite_day_links_Notes_and_date)
  with v show ?thesis by (rule_tac conjI)
qed

text \<open>
  The claim C8 as the specification states it, for every text that contains such a
  link, does not hold: when the text also holds a link whose date is not a calendar
  date, resolution ends with the date error and no text is produced.
\<close>

theorem daily_link_beside_invalid_date:
  "replaceDayLinks 2 ''[[January 5th, 2024]] [[February 30th, 2024]]''
     = Some (Inl (Errorf ''invalid date February 30th, 2024''
                    (ParseError ''February 30 2024'' ''day out of range'')))"
  by code_simp

text \<open>
  The texts the amended claim leaves out are those in which \<open>reDayLink\<close> matches
  somewhere else. There the claim fails as well: beside the link \<open>[[Jan 5th, 2024]]\<close>,
  which the pattern matches and \<open>parseRoamDate\<close> hands back unchanged (see C10), a daily
  link with a valid date is rewritten in the first round and the loop then never ends.
\<close>

lemma not_only_daily_links_Jan:
  "\<not> only_daily_links ''[[January 5th, 2024]] [[Jan 5th, 2024]]''"
  by code_simp

lemma find_daylink_date_and_Jan:
  "FindStringSubmatchIndex reDayLink ''[[January 5th, 2024]] [[Jan 5th, 2024]]''
     = Some ([], [''[['', ''January 5th, 2024'', '']]''], ''[[January 5th, 2024]]'',
             '' [[Jan 5th, 2024]]'')"
  by code_simp

lemma find_daylink_canonical_and_Jan:
  "FindStringSubmatchIndex reDayLink ''[[2024-01-05]] [[Jan 5th, 2024]]''
     = Some (''[[2024-01-05]] '', [''[['', ''Jan 5th, 2024'', '']]''], ''[[Jan 5th, 2024]]'', [])"
  by code_simp

lemma canonical_and_Jan_never_returns:
  "replaceDayLinks n ''[[2024-01-05]] [[Jan 5th, 2024]]'' = None"
  by (induction n) (simp_all add: find_daylink_canonical_and_Jan parseRoamDate_Jan)

lemma daily_link_beside_Jan_never_returns:
  "replaceDayLinks n ''[[January 5th, 2024]] [[Jan 5th, 2024]]'' = None"
  by (cases n)
    (simp_all add: find_daylink_date_and_Jan parseRoamDate_January_5th
       canonical_and_Jan_never_returns)

end
